theory Spec2Isabelle
  imports Complex_Main "HOL-Library.AList" "HOL-Library.Multiset"
    "HOL-Library.Char_ord" "HOL-Library.List_Lexorder" "HOL-Library.Product_Lexorder"
begin

section \<open>Python values, exceptions and builtins used by the market collector\<close>

text \<open>
  The collector of \<^verbatim>\<open>services/market_collector.py\<close> works on dictionaries delivered by
  the exchange library. An entry of such a dictionary is \<^verbatim>\<open>None\<close>, an \<^verbatim>\<open>int\<close>, a
  \<^verbatim>\<open>float\<close> or a string. An \<^verbatim>\<open>int\<close> is unbounded and its arithmetic exact. A
  \<^verbatim>\<open>float\<close> is an IEEE 754 double: \<open>Finite x\<close> is the double of value \<open>x\<close> (the two
  zeros, which Python takes for equal, are one value), beside the two infinities and
  NaN. Every result of an operation is a double; a real \<open>x\<close> that is the value of no
  double stands for no float. Exceptions are values of the type \<open>error\<close>, and a
  computation that may raise returns \<open>error + 'a\<close> with \<open>Inl\<close> for the exception.
\<close>

datatype pyfloat = Finite real | PosInf | NegInf | NaN

datatype pyval = PNone | PInt int | PFloat pyfloat | PStr string

datatype error =
  TypeError | KeyError | ValueError | OverflowError | ZeroDivisionError | ExchangeError

text \<open>\<^verbatim>\<open>d.get(k, default)\<close>: the default is used only when the key is absent.\<close>

definition dict_get :: "('k \<rightharpoonup> 'v) \<Rightarrow> 'k \<Rightarrow> 'v \<Rightarrow> 'v" where
  "dict_get d k dflt = (case d k of None \<Rightarrow> dflt | Some v \<Rightarrow> v)"

subsection \<open>Floating point\<close>

text \<open>Rounding to the nearest integer, a tie going to the even one.\<close>

definition round_half_even :: "real \<Rightarrow> int" where
  "round_half_even x =
     (let f = \<lfloor>x\<rfloor>; d = x - of_int f
      in if d < 1 / 2 then f else if 1 / 2 < d then f + 1 else if even f then f else f + 1)"

text \<open>
  The exponent of the unit in the last place of a double near \<open>x\<close>: 52 below the
  binary exponent of \<open>x\<close>, and not below that of the subnormal numbers.
\<close>

definition ulp_exponent :: "real \<Rightarrow> int" where
  "ulp_exponent x = max \<lfloor>log 2 \<bar>x\<bar>\<rfloor> (- 1022) - 52"

text \<open>
  The result of an arithmetic operation whose exact value is \<open>x\<close>: the double nearest to
  \<open>x\<close>, a tie going to the even significand, and an infinity when that rounding leaves
  the range of the finite doubles.
\<close>

definition round_double :: "real \<Rightarrow> pyfloat" where
  "round_double x =
     (if x = 0 then Finite 0
      else let u = 2 powi ulp_exponent x;
               r = of_int (round_half_even (x / u)) * u
           in if 2 ^ 1024 \<le> \<bar>r\<bar> then (if 0 < x then PosInf else NegInf) else Finite r)"

text \<open>\<^verbatim>\<open>x + y\<close> on two floats; it never raises.\<close>

fun fadd :: "pyfloat \<Rightarrow> pyfloat \<Rightarrow> pyfloat" where
  "fadd (Finite a) (Finite b) = round_double (a + b)"
| "fadd NaN y = NaN"
| "fadd x NaN = NaN"
| "fadd PosInf NegInf = NaN"
| "fadd NegInf PosInf = NaN"
| "fadd PosInf y = PosInf"
| "fadd x PosInf = PosInf"
| "fadd NegInf y = NegInf"
| "fadd x NegInf = NegInf"

text \<open>\<^verbatim>\<open>x / d\<close> for a float \<open>x\<close> and the finite double \<open>d\<close>, which is not zero.\<close>

fun fdiv :: "pyfloat \<Rightarrow> real \<Rightarrow> pyfloat" where
  "fdiv (Finite a) d = round_double (a / d)"
| "fdiv PosInf d = (if 0 < d then PosInf else NegInf)"
| "fdiv NegInf d = (if 0 < d then NegInf else PosInf)"
| "fdiv NaN d = NaN"

text \<open>
  The conversion of an \<^verbatim>\<open>int\<close> to a \<^verbatim>\<open>float\<close> that mixed arithmetic performs: the
  nearest double, or \<^verbatim>\<open>OverflowError\<close> for an \<^verbatim>\<open>int\<close> beyond the doubles.
\<close>

definition float_of_int :: "int \<Rightarrow> error + real" where
  "float_of_int i =
     (case round_double (of_int i) of Finite r \<Rightarrow> Inr r | _ \<Rightarrow> Inl OverflowError)"

subsection \<open>Operators and builtins\<close>

text \<open>
  \<^verbatim>\<open>a + b\<close>: exact on two \<^verbatim>\<open>int\<close>s, in floating point as soon as one side is a
  \<^verbatim>\<open>float\<close>, concatenation on two strings, \<^verbatim>\<open>TypeError\<close> otherwise.
\<close>

fun py_add :: "pyval \<Rightarrow> pyval \<Rightarrow> error + pyval" where
  "py_add (PInt a) (PInt b) = Inr (PInt (a + b))"
| "py_add (PInt a) (PFloat g) =
     (case float_of_int a of Inl e \<Rightarrow> Inl e | Inr x \<Rightarrow> Inr (PFloat (fadd (Finite x) g)))"
| "py_add (PFloat f) (PInt b) =
     (case float_of_int b of Inl e \<Rightarrow> Inl e | Inr y \<Rightarrow> Inr (PFloat (fadd f (Finite y))))"
| "py_add (PFloat f) (PFloat g) = Inr (PFloat (fadd f g))"
| "py_add (PStr s) (PStr t) = Inr (PStr (s @ t))"
| "py_add _ _ = Inl TypeError"

text \<open>
  \<^verbatim>\<open>sum(xs)\<close> starts from the \<^verbatim>\<open>int\<close> 0 and adds the items from left to right with
  \<^verbatim>\<open>+\<close>. (From version 3.12 on CPython compensates the rounding of a sum of floats;
  that refinement is not modelled.)
\<close>

fun py_sum_from :: "pyval \<Rightarrow> pyval list \<Rightarrow> error + pyval" where
  "py_sum_from acc [] = Inr acc"
| "py_sum_from acc (x # xs) =
     (case py_add acc x of Inl e \<Rightarrow> Inl e | Inr acc' \<Rightarrow> py_sum_from acc' xs)"

definition py_sum :: "pyval list \<Rightarrow> error + pyval" where
  "py_sum xs = py_sum_from (PInt 0) xs"

text \<open>
  \<^verbatim>\<open>x / len(xs)\<close>, true division by the \<^verbatim>\<open>int\<close> that \<^verbatim>\<open>len\<close> returns: the correctly
  rounded quotient of two \<^verbatim>\<open>int\<close>s, or the quotient of a float by the converted
  length.
\<close>

fun py_div_len :: "pyval \<Rightarrow> nat \<Rightarrow> error + pyval" where
  "py_div_len (PInt a) n =
     (if n = 0 then Inl ZeroDivisionError
      else case round_double (of_int a / of_nat n) of
             Finite r \<Rightarrow> Inr (PFloat (Finite r))
           | _ \<Rightarrow> Inl OverflowError)"
| "py_div_len (PFloat f) n =
     (case float_of_int (int n) of
        Inl e \<Rightarrow> Inl e
      | Inr d \<Rightarrow> if d = 0 then Inl ZeroDivisionError else Inr (PFloat (fdiv f d)))"
| "py_div_len _ n = Inl TypeError"

text \<open>
  The place of a float in the order of the floats, for the comparisons and for the keys
  of the sorts. NaN has no place in that order: every comparison with it is false.
\<close>

fun float_key :: "pyfloat \<Rightarrow> int \<times> real" where
  "float_key NegInf = (- 1, 0)"
| "float_key (Finite x) = (0, x)"
| "float_key PosInf = (1, 0)"
| "float_key NaN = (0, 0)"

fun fgt :: "pyfloat \<Rightarrow> pyfloat \<Rightarrow> bool" where
  "fgt NaN y = False"
| "fgt x NaN = False"
| "fgt x y = (float_key y < float_key x)"

text \<open>
  \<^verbatim>\<open>a > b\<close>: between two numbers by their exact values, between two strings by the
  order of strings, \<^verbatim>\<open>TypeError\<close> otherwise.
\<close>

fun py_gt :: "pyval \<Rightarrow> pyval \<Rightarrow> error + bool" where
  "py_gt (PInt a) (PInt b) = Inr (b < a)"
| "py_gt (PInt a) (PFloat g) = Inr (fgt (Finite (of_int a)) g)"
| "py_gt (PFloat f) (PInt b) = Inr (fgt f (Finite (of_int b)))"
| "py_gt (PFloat f) (PFloat g) = Inr (fgt f g)"
| "py_gt (PStr a) (PStr b) = Inr (b < a)"
| "py_gt _ _ = Inl TypeError"

text \<open>
  \<^verbatim>\<open>max(xs)\<close> keeps the first item and replaces it by each later item that compares
  greater; the empty list raises \<^verbatim>\<open>ValueError\<close>.
\<close>

fun py_max_from :: "pyval \<Rightarrow> pyval list \<Rightarrow> error + pyval" where
  "py_max_from m [] = Inr m"
| "py_max_from m (x # xs) =
     (case py_gt x m of Inl e \<Rightarrow> Inl e
      | Inr b \<Rightarrow> py_max_from (if b then x else m) xs)"

fun py_max :: "pyval list \<Rightarrow> error + pyval" where
  "py_max [] = Inl ValueError"
| "py_max (x # xs) = py_max_from x xs"

text \<open>
  The key that a sort compares: the place of a number in the order of the numbers, an
  \<^verbatim>\<open>int\<close> and a float of the same value having the same place. The two sorts of the
  collector meet numbers other than NaN only, so the place of any other value is never
  used.
\<close>

fun num_key :: "pyval \<Rightarrow> int \<times> real" where
  "num_key (PInt i) = (0, of_int i)"
| "num_key (PFloat f) = float_key f"
| "num_key _ = (0, 0)"

text \<open>
  \<^verbatim>\<open>list.sort(key=..., reverse=True)\<close> and \<^verbatim>\<open>sorted(..., key=..., reverse=True)\<close>: the list
  is reversed, sorted by a stable sort into ascending order of the key, and reversed
  again, so that the items are in descending order and items of equal key keep their
  order.
\<close>

definition sort_desc :: "('a \<Rightarrow> int \<times> real) \<Rightarrow> 'a list \<Rightarrow> 'a list" where
  "sort_desc key xs = rev (sort_key key (rev xs))"

text \<open>\<^verbatim>\<open>xs[:n]\<close>: a negative bound counts from the end of the list.\<close>

definition py_take :: "int \<Rightarrow> 'a list \<Rightarrow> 'a list" where
  "py_take n xs =
     (if 0 \<le> n then take (nat n) xs else take (length xs - nat (- n)) xs)"

text \<open>\<^verbatim>\<open>sub in s\<close> on strings: \<open>sub\<close> occurs as a contiguous piece of \<open>s\<close>.\<close>

fun starts_with :: "string \<Rightarrow> string \<Rightarrow> bool" where
  "starts_with [] s = True"
| "starts_with (p # ps) [] = False"
| "starts_with (p # ps) (c # cs) = (p = c \<and> starts_with ps cs)"

fun str_contains :: "string \<Rightarrow> string \<Rightarrow> bool" where
  "str_contains sub [] = (sub = [])"
| "str_contains sub (c # cs) = (starts_with sub (c # cs) \<or> str_contains sub cs)"

section \<open>Data model\<close>

text \<open>The raw ticker of the exchange library: a dictionary from field names to values.\<close>

type_synonym raw_ticker = "string \<rightharpoonup> pyval"

text \<open>
  An exchange instance, seen through the two calls the collector makes.
  \<^verbatim>\<open>fetch_tickers()\<close> returns a dictionary from symbols to raw tickers; its iteration
  order is its insertion order, so it is an association list.
\<close>

record exchange =
  fetch_ticker :: "string \<Rightarrow> error + raw_ticker"
  fetch_tickers :: "error + (string \<times> raw_ticker) list"

text \<open>The dictionary that \<^verbatim>\<open>get_ticker\<close> and \<^verbatim>\<open>get_top_pairs\<close> build.\<close>

record ticker =
  symbol :: pyval
  price :: pyval
  volume_24h :: pyval
  change_24h :: pyval
  high_24h :: pyval
  low_24h :: pyval
  timestamp :: string

text \<open>An entry of the \<^verbatim>\<open>'exchanges'\<close> list of a symbol's bucket.\<close>

record observation =
  exchange :: string
  obs_price :: pyval
  obs_volume_24h :: pyval
  obs_change_24h :: pyval

text \<open>A bucket of \<^verbatim>\<open>symbol_map\<close>.\<close>

record aggregated =
  agg_symbol :: pyval
  agg_exchanges :: "observation list"
  avg_price :: pyval
  total_volume_24h :: pyval
  avg_change_24h :: pyval
  max_change_24h :: pyval

text \<open>The state of a \<^verbatim>\<open>MarketCollector\<close> object.\<close>

record collector =
  exchanges :: "string \<rightharpoonup> exchange"
  exchange_names :: "string list"

text \<open>
  \<^verbatim>\<open>__init__\<close>: \<open>ccxt\<close> is the exchange library, the classes it can instantiate by name.
  A name it does not know raises inside the \<^verbatim>\<open>try\<close> and leaves no instance.
\<close>

definition MarketCollector :: "(string \<rightharpoonup> exchange) \<Rightarrow> string list \<Rightarrow> collector" where
  "MarketCollector ccxt names =
     \<lparr>exchanges = ccxt |` set names, exchange_names = names\<rparr>"

section \<open>Fetching\<close>

text \<open>The dictionary literal shared by \<^verbatim>\<open>get_ticker\<close> and \<^verbatim>\<open>get_top_pairs\<close>.\<close>

definition ticker_of :: "pyval \<Rightarrow> raw_ticker \<Rightarrow> string \<Rightarrow> ticker" where
  "ticker_of symb t now =
     \<lparr>symbol = symb,
      price = dict_get t ''last'' (PInt 0),
      volume_24h = dict_get t ''quoteVolume'' (PInt 0),
      change_24h = dict_get t ''percentage'' (PInt 0),
      high_24h = dict_get t ''high'' (PInt 0),
      low_24h = dict_get t ''low'' (PInt 0),
      timestamp = now\<rparr>"

text \<open>\<^verbatim>\<open>get_ticker\<close>; \<open>now\<close> is the reading of the clock.\<close>

definition get_ticker :: "collector \<Rightarrow> string \<Rightarrow> string \<Rightarrow> string \<Rightarrow> ticker option" where
  "get_ticker c now exchange_name symb =
     (case exchanges c exchange_name of
        None \<Rightarrow> None
      | Some ex \<Rightarrow>
          (case fetch_ticker ex symb of
             Inl e \<Rightarrow> None
           | Inr t \<Rightarrow> Some (ticker_of (PStr symb) t now)))"

text \<open>
  The list comprehension of \<^verbatim>\<open>get_top_pairs\<close>. The volume test is evaluated only for a
  symbol that contains \<^verbatim>\<open>/USDT\<close>, and raises on a volume that is not a number.
\<close>

fun usdt_pairs :: "(string \<times> raw_ticker) list \<Rightarrow> error + raw_ticker list" where
  "usdt_pairs [] = Inr []"
| "usdt_pairs ((symb, t) # rest) =
     (if str_contains ''/USDT'' symb then
        (case py_gt (dict_get t ''quoteVolume'' (PInt 0)) (PInt 0) of
           Inl e \<Rightarrow> Inl e
         | Inr b \<Rightarrow>
             (case usdt_pairs rest of
                Inl e \<Rightarrow> Inl e
              | Inr ps \<Rightarrow> Inr (if b then t # ps else ps)))
      else usdt_pairs rest)"

text \<open>
  The sort key \<^verbatim>\<open>x.get('quoteVolume', 0)\<close>. Every ticker that passed the filter has a
  number greater than zero there, which is not NaN; nothing else is ever compared.
\<close>

definition quote_volume :: "raw_ticker \<Rightarrow> int \<times> real" where
  "quote_volume t = num_key (dict_get t ''quoteVolume'' (PInt 0))"

text \<open>
  The loop that fills \<^verbatim>\<open>results\<close>. \<^verbatim>\<open>ticker['symbol']\<close> raises \<^verbatim>\<open>KeyError\<close> on a
  ticker without that entry; the handler around the loop then returns what was
  appended so far.
\<close>

fun append_results :: "string \<Rightarrow> raw_ticker list \<Rightarrow> ticker list" where
  "append_results now [] = []"
| "append_results now (t # ts) =
     (case t ''symbol'' of
        None \<Rightarrow> []
      | Some symb \<Rightarrow> ticker_of symb t now # append_results now ts)"

definition get_top_pairs :: "collector \<Rightarrow> string \<Rightarrow> string \<Rightarrow> int \<Rightarrow> ticker list" where
  "get_top_pairs c now exchange_name limit =
     (case exchanges c exchange_name of
        None \<Rightarrow> []
      | Some ex \<Rightarrow>
          (case fetch_tickers ex of
             Inl e \<Rightarrow> []
           | Inr tickers \<Rightarrow>
               (case usdt_pairs tickers of
                  Inl e \<Rightarrow> []
                | Inr ps \<Rightarrow>
                    append_results now (py_take limit (sort_desc quote_volume ps)))))"

section \<open>Collecting from all exchanges\<close>

text \<open>
  What \<^verbatim>\<open>asyncio.gather(..., return_exceptions=True)\<close> delivers for one task: the
  exception it raised, the result of \<^verbatim>\<open>get_ticker\<close>, or the result of
  \<^verbatim>\<open>get_top_pairs\<close>. The flag \<^verbatim>\<open>is_ticker\<close> of the source is true exactly for the tasks
  of \<^verbatim>\<open>get_ticker\<close>, so it is the constructor here.
\<close>

datatype task_result =
  Raised error
| TickerResult "ticker option"
| PairsResult "ticker list"

text \<open>The tasks of a cycle, each with the exchange it belongs to, in creation order.\<close>

definition tasks_with_info ::
  "collector \<Rightarrow> string \<Rightarrow> string list option \<Rightarrow> int \<Rightarrow> (string \<times> task_result) list" where
  "tasks_with_info c now symbols top_pairs_limit =
     concat (map (\<lambda>exchange_name.
       if exchange_name \<in> dom (exchanges c) then
         (case symbols of
            Some (s # ss) \<Rightarrow>
              map (\<lambda>symb. (exchange_name, TickerResult (get_ticker c now exchange_name symb)))
                (s # ss)
          | _ \<Rightarrow>
              [(exchange_name, PairsResult (get_top_pairs c now exchange_name top_pairs_limit))])
       else []) (exchange_names c))"

text \<open>
  One round of the loop over the task results. \<^verbatim>\<open>results\<close> is a dictionary in insertion
  order: an association list.
\<close>

fun process_result ::
  "(string \<times> ticker list) list \<Rightarrow> string \<times> task_result \<Rightarrow> (string \<times> ticker list) list" where
  "process_result results (exchange_name, Raised e) = results"
| "process_result results (exchange_name, TickerResult r) =
     (let results' = (if exchange_name \<notin> fst ` set results
                      then AList.update exchange_name [] results else results)
      in case r of
           None \<Rightarrow> results'
         | Some t \<Rightarrow>
             AList.update exchange_name
               (the (map_of results' exchange_name) @ [t]) results')"
| "process_result results (exchange_name, PairsResult ts) =
     (let results' = (if exchange_name \<notin> fst ` set results
                      then AList.update exchange_name [] results else results)
      in AList.update exchange_name (the (map_of results' exchange_name) @ ts) results')"

definition process_results :: "(string \<times> task_result) list \<Rightarrow> (string \<times> ticker list) list" where
  "process_results tasks = foldl process_result [] tasks"

definition collect_all_exchanges ::
  "collector \<Rightarrow> string \<Rightarrow> string list option \<Rightarrow> int \<Rightarrow> (string \<times> ticker list) list" where
  "collect_all_exchanges c now symbols top_pairs_limit =
     process_results (tasks_with_info c now symbols top_pairs_limit)"

section \<open>Aggregation and ranking\<close>

definition new_bucket :: "pyval \<Rightarrow> aggregated" where
  "new_bucket symb =
     \<lparr>agg_symbol = symb, agg_exchanges = [], avg_price = PInt 0,
      total_volume_24h = PInt 0, avg_change_24h = PInt 0, max_change_24h = PInt 0\<rparr>"

definition observation_of :: "string \<Rightarrow> ticker \<Rightarrow> observation" where
  "observation_of exchange_name t =
     \<lparr>exchange = exchange_name, obs_price = price t, obs_volume_24h = volume_24h t,
      obs_change_24h = change_24h t\<rparr>"

text \<open>
  A dictionary takes two keys for the same key when they are equal, and an \<^verbatim>\<open>int\<close> and
  a float of the same value are equal. \<open>dict_key x\<close> is the representative of the keys
  equal to \<open>x\<close>: the \<^verbatim>\<open>int\<close> for a float whose value is an integer, and \<open>x\<close> itself
  otherwise. NaN, which a dictionary finds by the identity of the object, is the one
  NaN object of the parser.
\<close>

fun dict_key :: "pyval \<Rightarrow> pyval" where
  "dict_key (PFloat (Finite x)) = (if x \<in> \<int> then PInt \<lfloor>x\<rfloor> else PFloat (Finite x))"
| "dict_key v = v"

text \<open>
  The body of the first loop of \<^verbatim>\<open>get_market_pulse\<close>, for one ticker of one exchange.
  \<^verbatim>\<open>symbol_map\<close> is a dictionary in insertion order: an association list under the
  representatives of its keys. A new bucket holds the symbol of the ticker that
  created it.
\<close>

definition add_ticker ::
  "string \<Rightarrow> ticker \<Rightarrow> (pyval \<times> aggregated) list \<Rightarrow> error + (pyval \<times> aggregated) list" where
  "add_ticker exchange_name t symbol_map =
     (let symb = symbol t;
          k = dict_key symb;
          data = (case map_of symbol_map k of None \<Rightarrow> new_bucket symb | Some d \<Rightarrow> d);
          data' = data\<lparr>agg_exchanges := agg_exchanges data @ [observation_of exchange_name t]\<rparr>
      in case py_add (total_volume_24h data') (volume_24h t) of
           Inl e \<Rightarrow> Inl e
         | Inr v \<Rightarrow> Inr (AList.update k (data'\<lparr>total_volume_24h := v\<rparr>) symbol_map))"

fun add_tickers ::
  "(pyval \<times> aggregated) list \<Rightarrow> (string \<times> ticker) list \<Rightarrow> error + (pyval \<times> aggregated) list" where
  "add_tickers symbol_map [] = Inr symbol_map"
| "add_tickers symbol_map ((exchange_name, t) # rest) =
     (case add_ticker exchange_name t symbol_map of
        Inl e \<Rightarrow> Inl e
      | Inr symbol_map' \<Rightarrow> add_tickers symbol_map' rest)"

text \<open>The pairs the two nested \<^verbatim>\<open>for\<close> statements run through, in their order.\<close>

definition observations :: "(string \<times> ticker list) list \<Rightarrow> (string \<times> ticker) list" where
  "observations all_data = [(exchange_name, t). (exchange_name, ts) \<leftarrow> all_data, t \<leftarrow> ts]"

text \<open>
  The body of the second loop, for one bucket. The statements run in their order: the
  average price is computed, sum and division, before the changes are summed.
\<close>

definition calculate_bucket :: "aggregated \<Rightarrow> error + aggregated" where
  "calculate_bucket data =
     (if agg_exchanges data \<noteq> [] then
        (let prices = map obs_price (agg_exchanges data);
             changes = map obs_change_24h (agg_exchanges data)
         in case py_sum prices of
              Inl e \<Rightarrow> Inl e
            | Inr sp \<Rightarrow>
         (case py_div_len sp (length prices) of
              Inl e \<Rightarrow> Inl e
            | Inr ap \<Rightarrow>
         (case py_sum changes of
              Inl e \<Rightarrow> Inl e
            | Inr sc \<Rightarrow>
         (case py_div_len sc (length changes) of
              Inl e \<Rightarrow> Inl e
            | Inr ac \<Rightarrow>
         (case py_max changes of
              Inl e \<Rightarrow> Inl e
            | Inr mc \<Rightarrow>
                Inr (data\<lparr>avg_price := ap, avg_change_24h := ac, max_change_24h := mc\<rparr>))))))
      else Inr data)"

fun calculate_averages ::
  "(pyval \<times> aggregated) list \<Rightarrow> error + (pyval \<times> aggregated) list" where
  "calculate_averages [] = Inr []"
| "calculate_averages ((symb, data) # rest) =
     (case calculate_bucket data of
        Inl e \<Rightarrow> Inl e
      | Inr data' \<Rightarrow>
          (case calculate_averages rest of
             Inl e \<Rightarrow> Inl e
           | Inr rest' \<Rightarrow> Inr ((symb, data') # rest')))"

text \<open>The two loops together: the symbol map that is handed to the ranking.\<close>

definition aggregate ::
  "(string \<times> ticker list) list \<Rightarrow> error + (pyval \<times> aggregated) list" where
  "aggregate all_data =
     (case add_tickers [] (observations all_data) of
        Inl e \<Rightarrow> Inl e
      | Inr symbol_map \<Rightarrow> calculate_averages symbol_map)"

text \<open>
  The ranking: the values of the symbol map, sorted by total volume and cut. A total
  volume is a sum of volumes that passed the test \<^verbatim>\<open>> 0\<close>: a number, and not NaN.
\<close>

definition volume_key :: "aggregated \<Rightarrow> int \<times> real" where
  "volume_key data = num_key (total_volume_24h data)"

definition rank_pulse :: "int \<Rightarrow> (pyval \<times> aggregated) list \<Rightarrow> aggregated list" where
  "rank_pulse top_pairs_limit symbol_map =
     py_take top_pairs_limit (sort_desc volume_key (map snd symbol_map))"

definition get_market_pulse :: "collector \<Rightarrow> string \<Rightarrow> int \<Rightarrow> error + aggregated list" where
  "get_market_pulse c now top_pairs_limit =
     (case aggregate (collect_all_exchanges c now None top_pairs_limit) of
        Inl e \<Rightarrow> Inl e
      | Inr symbol_map \<Rightarrow> Inr (rank_pulse top_pairs_limit symbol_map))"

section \<open>Notions used in the statements\<close>

text \<open>The tickers a task result contributes to \<^verbatim>\<open>results\<close>, and whether it is an exception.\<close>

fun task_tickers :: "task_result \<Rightarrow> ticker list" where
  "task_tickers (Raised e) = []"
| "task_tickers (TickerResult None) = []"
| "task_tickers (TickerResult (Some t)) = [t]"
| "task_tickers (PairsResult ts) = ts"

fun is_raised :: "task_result \<Rightarrow> bool" where
  "is_raised (Raised e) = True"
| "is_raised _ = False"

definition tickers_for :: "string \<Rightarrow> (string \<times> task_result) list \<Rightarrow> ticker list" where
  "tickers_for n tasks = concat (map (task_tickers \<circ> snd) (filter (\<lambda>task. fst task = n) tasks))"

text \<open>The tasks that one entry of \<^verbatim>\<open>exchange_names\<close> creates, and the tickers they deliver.\<close>

definition exchange_tasks ::
  "collector \<Rightarrow> string \<Rightarrow> string list option \<Rightarrow> int \<Rightarrow> string \<Rightarrow> (string \<times> task_result) list" where
  "exchange_tasks c now symbols top_pairs_limit exchange_name =
     (if exchange_name \<in> dom (exchanges c) then
         (case symbols of
            Some (s # ss) \<Rightarrow>
              map (\<lambda>symb. (exchange_name, TickerResult (get_ticker c now exchange_name symb)))
                (s # ss)
          | _ \<Rightarrow>
              [(exchange_name, PairsResult (get_top_pairs c now exchange_name top_pairs_limit))])
       else [])"

definition exchange_tickers ::
  "collector \<Rightarrow> string \<Rightarrow> string list option \<Rightarrow> int \<Rightarrow> string \<Rightarrow> ticker list" where
  "exchange_tickers c now symbols top_pairs_limit exchange_name =
     (case symbols of
        Some (s # ss) \<Rightarrow>
          concat (map (\<lambda>symb. case get_ticker c now exchange_name symb of
                                None \<Rightarrow> [] | Some t \<Rightarrow> [t]) (s # ss))
      | _ \<Rightarrow> get_top_pairs c now exchange_name top_pairs_limit)"

text \<open>The kinds of values: a number, an \<^verbatim>\<open>int\<close>, a float, a number other than NaN.\<close>

fun is_number :: "pyval \<Rightarrow> bool" where
  "is_number (PInt i) = True"
| "is_number (PFloat f) = True"
| "is_number _ = False"

fun is_int :: "pyval \<Rightarrow> bool" where
  "is_int (PInt i) = True"
| "is_int _ = False"

fun int_val :: "pyval \<Rightarrow> int" where
  "int_val (PInt i) = i"
| "int_val _ = 0"

fun is_float :: "pyval \<Rightarrow> bool" where
  "is_float (PFloat f) = True"
| "is_float _ = False"

fun comparable :: "pyval \<Rightarrow> bool" where
  "comparable (PInt i) = True"
| "comparable (PFloat NaN) = False"
| "comparable (PFloat f) = True"
| "comparable _ = False"

text \<open>A number that is neither negative nor NaN.\<close>

definition nonneg :: "pyval \<Rightarrow> bool" where
  "nonneg x \<longleftrightarrow> comparable x \<and> (0, 0) \<le> num_key x"

text \<open>The test of the comprehension of \<^verbatim>\<open>get_top_pairs\<close>, when it does not raise.\<close>

definition kept_pair :: "string \<times> raw_ticker \<Rightarrow> bool" where
  "kept_pair entry =
     (str_contains ''/USDT'' (fst entry) \<and>
      py_gt (dict_get (snd entry) ''quoteVolume'' (PInt 0)) (PInt 0) = Inr True)"

text \<open>The ticker that \<^verbatim>\<open>get_top_pairs\<close> builds from a raw ticker with a symbol.\<close>

definition top_ticker :: "string \<Rightarrow> raw_ticker \<Rightarrow> ticker" where
  "top_ticker now t = ticker_of (the (t ''symbol'')) t now"

text \<open>
  The observations of a symbol, in the order in which the first loop appends them: those
  of the tickers whose symbol is the same key as \<open>s\<close>.
\<close>

definition bucket_obs :: "pyval \<Rightarrow> (string \<times> ticker) list \<Rightarrow> observation list" where
  "bucket_obs s obs =
     map (\<lambda>p. observation_of (fst p) (snd p))
       (filter (\<lambda>p. dict_key (symbol (snd p)) = dict_key s) obs)"

text \<open>The bucket of a key in the symbol map, or a new bucket.\<close>

definition bucket_or_new :: "(pyval \<times> aggregated) list \<Rightarrow> pyval \<Rightarrow> aggregated" where
  "bucket_or_new m s = (case map_of m s of None \<Rightarrow> new_bucket s | Some d \<Rightarrow> d)"

text \<open>
  A bucket \<open>d\<close> has the figures of the bucket \<open>d0\<close> after the first loop has appended
  the observations \<open>os\<close> and added their volumes, one after the other, to its total.
\<close>

definition grown :: "aggregated \<Rightarrow> observation list \<Rightarrow> aggregated \<Rightarrow> bool" where
  "grown d0 os d \<longleftrightarrow>
     agg_exchanges d = agg_exchanges d0 @ os \<and>
     py_sum_from (total_volume_24h d0) (map obs_volume_24h os) = Inr (total_volume_24h d) \<and>
     avg_price d = avg_price d0 \<and> avg_change_24h d = avg_change_24h d0 \<and>
     max_change_24h d = max_change_24h d0"

text \<open>\<^verbatim>\<open>sum(xs) / len(xs)\<close>.\<close>

definition py_mean :: "pyval list \<Rightarrow> error + pyval" where
  "py_mean xs = (case py_sum xs of Inl e \<Rightarrow> Inl e | Inr s \<Rightarrow> py_div_len s (length xs))"

text \<open>
  What holds of a bucket \<open>a\<close> and the observations \<open>os\<close> of its symbol: the bucket lists
  them, there is at least one, and its four figures are what Python computes from them
  in their order: the volumes added to 0 from left to right, the sum of the prices
  divided by their number, the same for the changes, and the first greatest change.
\<close>

definition aggregates :: "aggregated \<Rightarrow> observation list \<Rightarrow> bool" where
  "aggregates a os \<longleftrightarrow>
     os \<noteq> [] \<and> agg_exchanges a = os \<and>
     py_sum (map obs_volume_24h os) = Inr (total_volume_24h a) \<and>
     py_mean (map obs_price os) = Inr (avg_price a) \<and>
     py_mean (map obs_change_24h os) = Inr (avg_change_24h a) \<and>
     py_max (map obs_change_24h os) = Inr (max_change_24h a)"

text \<open>A ticker whose price, volume and change are floats.\<close>

definition float_ticker :: "ticker \<Rightarrow> bool" where
  "float_ticker t \<longleftrightarrow> is_float (price t) \<and> is_float (volume_24h t) \<and> is_float (change_24h t)"

text \<open>A total that the first loop can add a float to: a float, or the \<^verbatim>\<open>int\<close> 0.\<close>

definition float_or_zero :: "pyval \<Rightarrow> bool" where
  "float_or_zero x \<longleftrightarrow> is_float x \<or> x = PInt 0"

text \<open>
  A float that is a double: an infinity, NaN, or a finite value that the rounding leaves
  as it is. Every float that the exchange library delivers is one.
\<close>

fun is_double :: "pyfloat \<Rightarrow> bool" where
  "is_double (Finite x) = (round_double x = Finite x)"
| "is_double _ = True"

fun double_val :: "pyval \<Rightarrow> bool" where
  "double_val (PFloat f) = is_double f"
| "double_val _ = False"

section \<open>Example exchanges and collectors\<close>

text \<open>A raw ticker with a symbol and with floats as price, volume and change.\<close>

definition raw :: "string \<Rightarrow> real \<Rightarrow> real \<Rightarrow> real \<Rightarrow> raw_ticker" where
  "raw symb p v ch =
     [''symbol'' \<mapsto> PStr symb, ''last'' \<mapsto> PFloat (Finite p),
      ''quoteVolume'' \<mapsto> PFloat (Finite v), ''percentage'' \<mapsto> PFloat (Finite ch)]"

text \<open>An exchange whose every call raises.\<close>

definition failing_exchange :: exchange where
  "failing_exchange =
     \<lparr>fetch_ticker = (\<lambda>symb. Inl ExchangeError), fetch_tickers = Inl ExchangeError\<rparr>"

text \<open>An exchange that lists one pair alone, at the given price, volume and change.\<close>

definition one_pair_exchange :: "string \<Rightarrow> real \<Rightarrow> real \<Rightarrow> real \<Rightarrow> exchange" where
  "one_pair_exchange pair p v ch =
     \<lparr>fetch_ticker = (\<lambda>symb. if symb = pair then Inr (raw pair p v ch)
                              else Inl ExchangeError),
      fetch_tickers = Inr [(pair, raw pair p v ch)]\<rparr>"

definition btc_exchange :: "real \<Rightarrow> real \<Rightarrow> real \<Rightarrow> exchange" where
  "btc_exchange p v ch = one_pair_exchange ''BTC/USDT'' p v ch"

text \<open>
  An exchange with five pairs: two USDT pairs of equal volume, a third of smaller volume,
  a pair quoted in BTC and a USDT pair without volume.
\<close>

definition five_pairs_tickers :: "(string \<times> raw_ticker) list" where
  "five_pairs_tickers =
     [(''ETH/USDT'', raw ''ETH/USDT'' 3000 500 2),
      (''BTC/USDT'', raw ''BTC/USDT'' 50000 500 1),
      (''ETH/BTC'', raw ''ETH/BTC'' (1 / 16) 900 0),
      (''XRP/USDT'', raw ''XRP/USDT'' 1 200 (- 4)),
      (''DOGE/USDT'', raw ''DOGE/USDT'' 1 0 0)]"

definition five_pairs_exchange :: exchange where
  "five_pairs_exchange =
     \<lparr>fetch_ticker = (\<lambda>symb. Inl ExchangeError), fetch_tickers = Inr five_pairs_tickers\<rparr>"

definition two_exchanges :: collector where
  "two_exchanges =
     MarketCollector [''A'' \<mapsto> btc_exchange 50000 100 1, ''B'' \<mapsto> btc_exchange 50010 300 3]
       [''A'', ''B'']"

text \<open>The collector of the scenario with the exchanges configured in the other order.\<close>

definition two_exchanges_swapped :: collector where
  "two_exchanges_swapped =
     MarketCollector [''A'' \<mapsto> btc_exchange 50000 100 1, ''B'' \<mapsto> btc_exchange 50010 300 3]
       [''B'', ''A'']"

definition one_failing :: collector where
  "one_failing =
     MarketCollector [''A'' \<mapsto> failing_exchange, ''B'' \<mapsto> btc_exchange 50010 300 3]
       [''A'', ''B'']"

definition all_failing :: collector where
  "all_failing =
     MarketCollector [''A'' \<mapsto> failing_exchange, ''B'' \<mapsto> failing_exchange] [''A'', ''B'']"

definition five_pairs :: collector where
  "five_pairs = MarketCollector [''A'' \<mapsto> five_pairs_exchange] [''A'']"

text \<open>An exchange that reports BTC/USDT with \<^verbatim>\<open>None\<close> as last price and as change.\<close>

definition none_price_exchange :: exchange where
  "none_price_exchange =
     (let t = [''symbol'' \<mapsto> PStr ''BTC/USDT'', ''last'' \<mapsto> PNone,
               ''quoteVolume'' \<mapsto> PFloat (Finite 100), ''percentage'' \<mapsto> PNone]
      in \<lparr>fetch_ticker = (\<lambda>symb. Inr t), fetch_tickers = Inr [(''BTC/USDT'', t)]\<rparr>)"

definition none_price :: collector where
  "none_price = MarketCollector [''A'' \<mapsto> none_price_exchange] [''A'']"

text \<open>The observation of a pair by an exchange, with floats as price, volume and change.\<close>

definition float_obs :: "string \<Rightarrow> real \<Rightarrow> real \<Rightarrow> real \<Rightarrow> observation" where
  "float_obs ex p v ch =
     \<lparr>exchange = ex, obs_price = PFloat (Finite p), obs_volume_24h = PFloat (Finite v),
      obs_change_24h = PFloat (Finite ch)\<rparr>"

text \<open>The bucket and the two observations of the scenario with the exchanges A and B.\<close>

definition btc_observations :: "observation list" where
  "btc_observations = [float_obs ''A'' 50000 100 1, float_obs ''B'' 50010 300 3]"

definition btc_bucket :: aggregated where
  "btc_bucket =
     \<lparr>agg_symbol = PStr ''BTC/USDT'', agg_exchanges = btc_observations,
      avg_price = PFloat (Finite 50005), total_volume_24h = PFloat (Finite 400),
      avg_change_24h = PFloat (Finite 2), max_change_24h = PFloat (Finite 3)\<rparr>"

text \<open>The bucket of a symbol that a single exchange reported.\<close>

definition single_bucket :: "string \<Rightarrow> string \<Rightarrow> real \<Rightarrow> real \<Rightarrow> real \<Rightarrow> aggregated" where
  "single_bucket ex symb p v ch =
     \<lparr>agg_symbol = PStr symb, agg_exchanges = [float_obs ex p v ch],
      avg_price = PFloat (Finite p), total_volume_24h = PFloat (Finite v),
      avg_change_24h = PFloat (Finite ch), max_change_24h = PFloat (Finite ch)\<rparr>"

text \<open>
  Three exchanges that report BTC/USDT at the price 1 and the change 1, one with the
  volume \<open>2\<^sup>5\<^sup>3\<close> and two with the volume 1, configured with the great volume first
  and with the great volume last.
\<close>

definition great_first :: collector where
  "great_first =
     MarketCollector [''A'' \<mapsto> btc_exchange 1 9007199254740992 1,
                      ''B'' \<mapsto> btc_exchange 1 1 1, ''C'' \<mapsto> btc_exchange 1 1 1]
       [''A'', ''B'', ''C'']"

definition great_last :: collector where
  "great_last =
     MarketCollector [''A'' \<mapsto> btc_exchange 1 9007199254740992 1,
                      ''B'' \<mapsto> btc_exchange 1 1 1, ''C'' \<mapsto> btc_exchange 1 1 1]
       [''C'', ''B'', ''A'']"

text \<open>
  Two exchanges that report one pair each, X/USDT and Y/USDT, with the same volume,
  configured in the two orders.
\<close>

definition tied_xy :: collector where
  "tied_xy =
     MarketCollector [''A'' \<mapsto> one_pair_exchange ''X/USDT'' 1 500 1,
                      ''B'' \<mapsto> one_pair_exchange ''Y/USDT'' 1 500 1]
       [''A'', ''B'']"

definition tied_yx :: collector where
  "tied_yx =
     MarketCollector [''A'' \<mapsto> one_pair_exchange ''X/USDT'' 1 500 1,
                      ''B'' \<mapsto> one_pair_exchange ''Y/USDT'' 1 500 1]
       [''B'', ''A'']"







section \<open>Properties of the floating-point operations\<close>

lemma round_half_even_of_int: "round_half_even (of_int k) = k"
  by (simp add: round_half_even_def)

lemma round_half_even_nonneg: "0 \<le> x \<Longrightarrow> 0 \<le> round_half_even x"
  by (auto simp: round_half_even_def Let_def)

lemma round_double_not_NaN: "round_double x \<noteq> NaN"
  by (simp add: round_double_def Let_def)

lemma floor_log2_less:
  assumes "0 < x" and "x < 2 powi n"
  shows "\<lfloor>log 2 x\<rfloor> < n"
proof -
  have "2 powi n = (2::real) powr of_int n"
    by (simp add: powr_real_of_int')
  with assms have "log 2 x < of_int n"
    by (simp add: log_less_iff)
  then show ?thesis by (simp add: floor_less_iff)
qed

lemma floor_log2_eq:
  assumes "2 powi n \<le> x" and "x < 2 powi (n + 1)"
  shows "\<lfloor>log 2 x\<rfloor> = n"
proof -
  have p: "2 powi k = (2::real) powr of_int k" for k
    by (simp add: powr_real_of_int')
  have "0 < (2::real) powi n" by simp
  with assms(1) have x: "0 < x" by linarith
  show ?thesis
    using assms x by (simp add: floor_log_eq_powr_iff p)
qed

lemma round_double_exact:
  assumes x: "x = of_int m * 2 powi k" and m: "\<bar>m\<bar> < 2 ^ 53" and k: "- 1074 \<le> k"
    and r: "\<bar>x\<bar> < 2 ^ 1024"
  shows "round_double x = Finite x"
proof (cases "x = 0")
  case True
  then show ?thesis by (simp add: round_double_def)
next
  case False
  define q where "q = ulp_exponent x"
  from False have pos: "0 < \<bar>x\<bar>" by simp
  have "\<bar>x\<bar> = of_int \<bar>m\<bar> * 2 powi k"
    by (simp add: x abs_mult)
  also have "\<dots> < 2 ^ 53 * 2 powi k"
  proof -
    have "(of_int \<bar>m\<bar> :: real) < of_int (2 ^ 53)"
      using m by (simp only: of_int_less_iff)
    then show ?thesis by (simp add: mult_strict_right_mono)
  qed
  also have "\<dots> = 2 powi (53 + k)"
    by (simp add: power_int_add)
  finally have "\<lfloor>log 2 \<bar>x\<bar>\<rfloor> < 53 + k"
    using pos by (intro floor_log2_less)
  with k have qk: "q \<le> k"
    by (simp add: q_def ulp_exponent_def)
  then obtain j where j: "k = q + int j"
    by (metis zle_iff_zadd)
  have "x / 2 powi q = of_int m * 2 powi (k - q)"
    by (simp add: x power_int_diff)
  also have "\<dots> = of_int (m * 2 ^ j)"
    by (simp add: j power_int_def)
  finally have d: "x / 2 powi q = of_int (m * 2 ^ j)" .
  have "x = (x / 2 powi q) * 2 powi q" by simp
  then have "of_int (round_half_even (x / 2 powi q)) * 2 powi q = x"
    unfolding d round_half_even_of_int by simp
  with r False show ?thesis
    by (simp add: round_double_def Let_def q_def[symmetric])
qed

lemma round_double_int:
  assumes "x \<in> \<int>" and "\<bar>x\<bar> < 2 ^ 53"
  shows "round_double x = Finite x"
proof -
  from assms(1) obtain m where m: "x = of_int m" by (auto elim: Ints_cases)
  have "\<bar>m\<bar> < 2 ^ 53"
    using assms(2) unfolding m by (metis of_int_abs of_int_less_iff of_int_numeral of_int_power)
  moreover have "\<bar>x\<bar> < 2 ^ 1024"
    using assms(2) by (rule less_trans) simp
  ultimately show ?thesis
    using round_double_exact[of x m 0] m by simp
qed

lemma float_of_int_small: "\<bar>i\<bar> < 2 ^ 53 \<Longrightarrow> float_of_int i = Inr (of_int i)"
proof -
  assume a: "\<bar>i\<bar> < 2 ^ 53"
  then have "\<bar>of_int i :: real\<bar> < 2 ^ 53"
    by (metis of_int_abs of_int_less_iff of_int_numeral of_int_power)
  then have "round_double (of_int i) = Finite (of_int i)"
    by (intro round_double_int) simp_all
  then show ?thesis by (simp add: float_of_int_def)
qed

lemma round_double_nonneg:
  assumes "0 \<le> x"
  shows "(0, 0) \<le> float_key (round_double x)"
proof (cases "x = 0")
  case True
  then show ?thesis by (simp add: round_double_def)
next
  case False
  with assms have x: "0 < x" by simp
  have u: "0 < (2::real) powi ulp_exponent x" by simp
  then have "0 \<le> x / 2 powi ulp_exponent x"
    using assms by simp
  then have "0 \<le> round_half_even (x / 2 powi ulp_exponent x)"
    by (rule round_half_even_nonneg)
  then have "0 \<le> (of_int (round_half_even (x / 2 powi ulp_exponent x)) :: real) * 2 powi ulp_exponent x"
    using u by simp
  with x show ?thesis
    by (simp add: round_double_def Let_def)
qed

lemma round_double_tie_2_53: "round_double (9007199254740992 + 1) = Finite 9007199254740992"
proof -
  have e: "\<lfloor>log 2 (9007199254740993 :: real)\<rfloor> = 53"
    by (rule floor_log2_eq) simp_all
  have h: "round_half_even (9007199254740993 / 2) = 4503599627370496"
    by (simp add: round_half_even_def Let_def)
  show ?thesis
    by (simp add: round_double_def ulp_exponent_def e h Let_def)
qed

lemma round_double_2_53_plus_2: "round_double (2 + 9007199254740992) = Finite 9007199254740994"
  using round_double_exact[of 9007199254740994 4503599627370497 1] by simp

section \<open>Properties of the collection\<close>

lemma process_result_distinct:
  "distinct (map fst rs) \<Longrightarrow> distinct (map fst (process_result rs task))"
  by (cases task; cases "snd task")
     (auto simp: Let_def distinct_update split: option.splits)

lemma map_of_process_result:
  "map_of (process_result rs (n, r)) =
     (if is_raised r then map_of rs
      else (map_of rs)(n \<mapsto> (case map_of rs n of None \<Rightarrow> [] | Some l \<Rightarrow> l) @ task_tickers r))"
proof (cases "map_of rs n")
  case None
  then have "n \<notin> fst ` set rs" by (simp add: map_of_eq_None_iff)
  with None show ?thesis
    by (cases r rule: task_tickers.cases) (simp_all add: Let_def update_conv')
next
  case (Some l)
  then have "n \<in> fst ` set rs" by (metis map_of_eq_None_iff option.distinct(1))
  with Some show ?thesis
    by (cases r rule: task_tickers.cases) (simp_all add: Let_def update_conv' fun_upd_idem)
qed

lemma task_tickers_raised: "is_raised r \<Longrightarrow> task_tickers r = []"
  by (cases r) simp_all

lemma tickers_for_raised:
  "\<forall>r. (n, r) \<in> set tasks \<longrightarrow> is_raised r \<Longrightarrow> tickers_for n tasks = []"
  by (induction tasks) (auto simp: tickers_for_def task_tickers_raised)

lemma map_of_foldl_process:
  "map_of (foldl process_result rs tasks) n =
     (if \<exists>r. (n, r) \<in> set tasks \<and> \<not> is_raised r
      then Some ((case map_of rs n of None \<Rightarrow> [] | Some l \<Rightarrow> l) @ tickers_for n tasks)
      else map_of rs n)"
proof (induction tasks arbitrary: rs)
  case Nil
  then show ?case by simp
next
  case (Cons task tasks)
  obtain m r where task: "task = (m, r)" by (cases task)
  show ?case
    unfolding task foldl_Cons Cons.IH map_of_process_result
    by (cases r) (auto simp: tickers_for_def tickers_for_raised[unfolded tickers_for_def] split: option.splits)
qed

lemma tasks_with_info_alt:
  "tasks_with_info c now symbols limit =
     concat (map (exchange_tasks c now symbols limit) (exchange_names c))"
  unfolding tasks_with_info_def exchange_tasks_def ..

lemma exchange_tasks_fst:
  "task \<in> set (exchange_tasks c now symbols limit m) \<Longrightarrow> fst task = m"
  by (auto simp: exchange_tasks_def split: if_splits option.splits list.splits)

lemma exchange_tasks_not_raised:
  "task \<in> set (exchange_tasks c now symbols limit m) \<Longrightarrow> \<not> is_raised (snd task)"
  by (auto simp: exchange_tasks_def split: if_splits option.splits list.splits)

lemma exchange_tasks_nonempty:
  "m \<in> dom (exchanges c) \<Longrightarrow> exchange_tasks c now symbols limit m \<noteq> []"
  by (auto simp: exchange_tasks_def split: option.splits list.splits)

lemma exchange_tasks_tickers:
  "m \<in> dom (exchanges c) \<Longrightarrow>
   concat (map (task_tickers \<circ> snd) (exchange_tasks c now symbols limit m)) =
     exchange_tickers c now symbols limit m"
proof -
  have opt: "task_tickers (TickerResult r) = (case r of None \<Rightarrow> [] | Some t \<Rightarrow> [t])" for r
    by (cases r) simp_all
  assume "m \<in> dom (exchanges c)"
  then show ?thesis
    by (auto simp: exchange_tasks_def exchange_tickers_def opt comp_def
             split: option.splits list.splits)
qed

lemma filter_concat_map_fst:
  assumes "\<And>m task. task \<in> set (g m) \<Longrightarrow> fst task = m"
  shows "filter (\<lambda>task. fst task = n) (concat (map g names)) =
           concat (map g (filter (\<lambda>m. m = n) names))"
proof (induction names)
  case Nil
  then show ?case by simp
next
  case (Cons m names)
  have "filter (\<lambda>task. fst task = n) (g m) = (if m = n then g m else [])"
    using assms[of _ m] by (auto simp: filter_empty_conv intro: filter_True)
  with Cons show ?case by simp
qed

lemma concat_map_concat:
  "concat (map f (concat (map g xs))) = concat (map (\<lambda>m. concat (map f (g m))) xs)"
  by (induction xs) simp_all

lemma tickers_for_tasks_with_info:
  assumes "n \<in> dom (exchanges c)"
  shows "tickers_for n (tasks_with_info c now symbols limit) =
           concat (map (\<lambda>m. exchange_tickers c now symbols limit n)
                     (filter (\<lambda>m. m = n) (exchange_names c)))"
proof -
  have "filter (\<lambda>task. fst task = n) (tasks_with_info c now symbols limit) =
          concat (map (exchange_tasks c now symbols limit)
                    (filter (\<lambda>m. m = n) (exchange_names c)))"
    unfolding tasks_with_info_alt
    by (rule filter_concat_map_fst) (rule exchange_tasks_fst)
  then have "tickers_for n (tasks_with_info c now symbols limit) =
          concat (map (\<lambda>m. concat (map (task_tickers \<circ> snd) (exchange_tasks c now symbols limit m)))
                    (filter (\<lambda>m. m = n) (exchange_names c)))"
    by (simp add: tickers_for_def concat_map_concat)
  also have "\<dots> = concat (map (\<lambda>m. exchange_tickers c now symbols limit n)
                     (filter (\<lambda>m. m = n) (exchange_names c)))"
    using assms exchange_tasks_tickers[of n c now symbols limit]
    by (intro arg_cong[where f = concat] map_cong) (auto simp: comp_def)
  finally show ?thesis .
qed

lemma tasks_with_info_present:
  "(\<exists>r. (n, r) \<in> set (tasks_with_info c now symbols limit) \<and> \<not> is_raised r) \<longleftrightarrow>
     n \<in> set (exchange_names c) \<and> n \<in> dom (exchanges c)"
proof
  assume "\<exists>r. (n, r) \<in> set (tasks_with_info c now symbols limit) \<and> \<not> is_raised r"
  then obtain r m where m: "m \<in> set (exchange_names c)"
      and r: "(n, r) \<in> set (exchange_tasks c now symbols limit m)"
    by (auto simp: tasks_with_info_alt)
  from r have "m = n" using exchange_tasks_fst by fastforce
  moreover from r have "m \<in> dom (exchanges c)"
    by (auto simp: exchange_tasks_def split: if_splits)
  ultimately show "n \<in> set (exchange_names c) \<and> n \<in> dom (exchanges c)"
    using m by simp
next
  assume n: "n \<in> set (exchange_names c) \<and> n \<in> dom (exchanges c)"
  then obtain m r where task: "(m, r) \<in> set (exchange_tasks c now symbols limit n)"
    using exchange_tasks_nonempty[of n c now symbols limit]
    by (cases "exchange_tasks c now symbols limit n") auto
  then have "m = n" "\<not> is_raised r"
    using exchange_tasks_fst exchange_tasks_not_raised by fastforce+
  with task n have "(n, r) \<in> set (tasks_with_info c now symbols limit)"
    unfolding tasks_with_info_alt by auto
  with \<open>\<not> is_raised r\<close>
  show "\<exists>r. (n, r) \<in> set (tasks_with_info c now symbols limit) \<and> \<not> is_raised r"
    by blast
qed

lemma collect_distinct:
  "distinct (map fst (collect_all_exchanges c now symbols limit))"
proof -
  have "distinct (map fst rs) \<Longrightarrow> distinct (map fst (foldl process_result rs tasks))" for rs tasks
    by (induction tasks arbitrary: rs) (simp_all add: process_result_distinct)
  then show ?thesis
    by (simp add: collect_all_exchanges_def process_results_def)
qed

lemma map_of_collect:
  "map_of (collect_all_exchanges c now symbols limit) n =
     (if n \<in> set (exchange_names c) \<and> n \<in> dom (exchanges c)
      then Some (concat (map (\<lambda>m. exchange_tickers c now symbols limit n)
                           (filter (\<lambda>m. m = n) (exchange_names c))))
      else None)"
  unfolding collect_all_exchanges_def process_results_def map_of_foldl_process
    tasks_with_info_present
  by (simp add: tickers_for_tasks_with_info)

lemma collect_values:
  assumes "(n, ts) \<in> set (collect_all_exchanges c now symbols limit)"
  shows "n \<in> set (exchange_names c)" and "n \<in> dom (exchanges c)"
    and "ts = concat (map (\<lambda>m. exchange_tickers c now symbols limit n)
                       (filter (\<lambda>m. m = n) (exchange_names c)))"
proof -
  have "map_of (collect_all_exchanges c now symbols limit) n = Some ts"
    using assms collect_distinct by (simp add: map_of_eq_Some_iff)
  then show "n \<in> set (exchange_names c)" and "n \<in> dom (exchanges c)"
    and "ts = concat (map (\<lambda>m. exchange_tickers c now symbols limit n)
                       (filter (\<lambda>m. m = n) (exchange_names c)))"
    by (auto simp: map_of_collect split: if_splits)
qed

lemma collect_keys:
  "fst ` set (collect_all_exchanges c now symbols limit) =
     set (exchange_names c) \<inter> dom (exchanges c)"
proof -
  have "n \<in> fst ` set (collect_all_exchanges c now symbols limit) \<longleftrightarrow>
          n \<in> set (exchange_names c) \<inter> dom (exchanges c)" for n
    using map_of_collect[of c now symbols limit n]
      map_of_eq_None_iff[of "collect_all_exchanges c now symbols limit" n]
    by (auto split: if_splits)
  then show ?thesis by blast
qed

lemma observations_Nil:
  "(\<And>n ts. (n, ts) \<in> set d \<Longrightarrow> ts = []) \<Longrightarrow> observations d = []"
  by (induction d) (auto simp: observations_def)

lemma aggregate_no_observations: "observations d = [] \<Longrightarrow> aggregate d = Inr []"
  by (simp add: aggregate_def)

lemma py_take_Nil: "py_take n [] = []"
  by (simp add: py_take_def)

lemma py_take_0: "py_take 0 xs = []"
  by (simp add: py_take_def)

lemma get_top_pairs_0: "get_top_pairs c now n 0 = []"
  by (simp add: get_top_pairs_def py_take_0 split: option.splits sum.splits)

lemma pulse_no_tickers:
  assumes "\<And>n. n \<in> dom (exchanges c) \<Longrightarrow> get_top_pairs c now n limit = []"
  shows "get_market_pulse c now limit = Inr []"
proof -
  have "ts = []" if "(n, ts) \<in> set (collect_all_exchanges c now None limit)" for n ts
    using collect_values[OF that] assms[of n] by (simp add: exchange_tickers_def)
  then have "observations (collect_all_exchanges c now None limit) = []"
    by (rule observations_Nil)
  then show ?thesis
    by (simp add: get_market_pulse_def aggregate_no_observations rank_pulse_def
          sort_desc_def py_take_Nil)
qed

lemma all_fail_tickers:
  assumes "\<forall>n ex. exchanges c n = Some ex \<longrightarrow>
             isl (fetch_tickers ex) \<and> (\<forall>symb. isl (fetch_ticker ex symb))"
  shows "exchange_tickers c now symbols limit n = []"
proof -
  have fail: "isl (fetch_tickers ex) \<and> isl (fetch_ticker ex symb)"
    if "exchanges c n = Some ex" for ex symb
    using assms that by blast
  have top: "get_top_pairs c now n limit = []"
  proof (cases "exchanges c n")
    case None
    then show ?thesis by (simp add: get_top_pairs_def)
  next
    case (Some ex)
    with fail[OF Some] show ?thesis
      by (cases "fetch_tickers ex") (simp_all add: get_top_pairs_def)
  qed
  have one: "get_ticker c now n symb = None" for symb
  proof (cases "exchanges c n")
    case None
    then show ?thesis by (simp add: get_ticker_def)
  next
    case (Some ex)
    with fail[OF Some, of symb] show ?thesis
      by (cases "fetch_ticker ex symb") (simp_all add: get_ticker_def)
  qed
  show ?thesis
    by (simp add: exchange_tickers_def top one split: option.splits list.splits)
qed

lemma exchange_tickers_cong:
  assumes "exchanges c' n = exchanges c n"
  shows "exchange_tickers c' now symbols limit n = exchange_tickers c now symbols limit n"
proof -
  have "get_ticker c' now n symb = get_ticker c now n symb" for symb
    using assms by (simp add: get_ticker_def)
  moreover have "get_top_pairs c' now n limit = get_top_pairs c now n limit"
    using assms by (simp add: get_top_pairs_def)
  ultimately show ?thesis by (simp add: exchange_tickers_def split: option.splits list.splits)
qed

lemma process_results_keys:
  "n \<in> fst ` set (process_results tasks) \<longleftrightarrow> (\<exists>r. (n, r) \<in> set tasks \<and> \<not> is_raised r)"
  using map_of_foldl_process[of "[]" tasks n]
    map_of_eq_None_iff[of "process_results tasks" n]
  by (auto simp: process_results_def split: if_splits)

lemma pulse_limit_zero: "get_market_pulse c now 0 = Inr []"
  by (rule pulse_no_tickers) (rule get_top_pairs_0)

text \<open>The definitions that evaluate a collection cycle on a concrete collector.\<close>

lemmas eval_defs = MarketCollector_def get_top_pairs_def get_ticker_def ticker_of_def
  dict_get_def py_take_def sort_desc_def quote_volume_def volume_key_def tasks_with_info_def
  process_results_def collect_all_exchanges_def observations_def add_ticker_def
  new_bucket_def observation_of_def calculate_bucket_def py_sum_def aggregate_def
  rank_pulse_def get_market_pulse_def Let_def raw_def failing_exchange_def btc_exchange_def
  one_pair_exchange_def five_pairs_exchange_def five_pairs_tickers_def float_obs_def
  float_of_int_small round_double_int

section \<open>Properties of the top-pairs fetch\<close>

lemma py_gt_zero_True:
  "py_gt x (PInt 0) = Inr True \<longleftrightarrow> comparable x \<and> (0, 0) < num_key x"
proof (cases x)
  case (PFloat f)
  then show ?thesis by (cases f) simp_all
qed simp_all

lemma usdt_pairs_filter:
  "usdt_pairs tickers = Inr ps \<Longrightarrow> ps = map snd (filter kept_pair tickers)"
proof (induction tickers arbitrary: ps)
  case Nil
  then show ?case by simp
next
  case (Cons entry tickers)
  obtain k t where entry: "entry = (k, t)" by (cases entry)
  from Cons.prems Cons.IH show ?case
    unfolding entry
    by (auto simp: kept_pair_def split: if_splits sum.splits)
qed

lemma append_results_takeWhile:
  "append_results now ts = map (top_ticker now) (takeWhile (\<lambda>t. t ''symbol'' \<noteq> None) ts)"
  by (induction ts) (auto simp: top_ticker_def split: option.splits)

lemma volume_top_ticker: "volume_24h (top_ticker now t) = dict_get t ''quoteVolume'' (PInt 0)"
  by (simp add: top_ticker_def ticker_of_def)

lemma quote_volume_top_ticker: "quote_volume t = num_key (volume_24h (top_ticker now t))"
  by (simp add: quote_volume_def volume_top_ticker)

lemma sorted_desc_sort_desc:
  "sorted_wrt (\<lambda>a b. key b \<le> key a) (sort_desc key xs)"
proof -
  have "sorted (map key (sort_key key (rev xs)))"
    by (rule sorted_sort_key)
  then have "sorted_wrt (\<lambda>a b. key a \<le> key b) (sort_key key (rev xs))"
    by (simp add: sorted_map)
  then show ?thesis
    by (simp add: sort_desc_def sorted_wrt_rev)
qed

lemma sort_desc_stable:
  "filter (\<lambda>x. key x = v) (sort_desc key xs) = filter (\<lambda>x. key x = v) xs"
proof -
  have "filter (\<lambda>x. key x = v) (sort_key key (rev xs)) = filter (\<lambda>x. key x = v) (rev xs)"
    by (rule sort_key_stable)
  then have "rev (filter (\<lambda>x. key x = v) (sort_key key (rev xs))) =
      rev (filter (\<lambda>x. key x = v) (rev xs))"
    by simp
  then show ?thesis
    by (simp add: sort_desc_def rev_filter)
qed

lemma sorted_wrt_py_take:
  "sorted_wrt P xs \<Longrightarrow> sorted_wrt P (py_take n xs)"
  by (simp add: py_take_def sorted_wrt_take)

lemma sorted_wrt_takeWhile:
  "sorted_wrt P xs \<Longrightarrow> sorted_wrt P (takeWhile Q xs)"
  by (induction xs) (auto dest: set_takeWhileD)

lemma set_py_take: "set (py_take n xs) \<subseteq> set xs"
  by (auto simp: py_take_def dest: in_set_takeD)

lemma length_py_take: "0 \<le> n \<Longrightarrow> length (py_take n xs) = min (nat n) (length xs)"
  by (simp add: py_take_def min.commute)

lemma set_sort_desc: "set (sort_desc key xs) = set xs"
  by (simp add: sort_desc_def)

lemma length_sort_desc: "length (sort_desc key xs) = length xs"
  by (simp add: sort_desc_def)

text \<open>The shape of every result of \<^verbatim>\<open>get_top_pairs\<close>.\<close>

lemma get_top_pairs_shape:
  "get_top_pairs c now n limit = [] \<or>
   (\<exists>ex tickers. exchanges c n = Some ex \<and> fetch_tickers ex = Inr tickers \<and>
      usdt_pairs tickers = Inr (map snd (filter kept_pair tickers)) \<and>
      get_top_pairs c now n limit =
        map (top_ticker now) (takeWhile (\<lambda>t. t ''symbol'' \<noteq> None)
          (py_take limit (sort_desc quote_volume (map snd (filter kept_pair tickers))))))"
proof (cases "exchanges c n")
  case None
  then show ?thesis by (simp add: get_top_pairs_def)
next
  case (Some ex)
  show ?thesis
  proof (cases "fetch_tickers ex")
    case (Inl e)
    with Some show ?thesis by (simp add: get_top_pairs_def)
  next
    case (Inr tickers)
    show ?thesis
    proof (cases "usdt_pairs tickers")
      case (Inl e)
      with Some Inr show ?thesis by (simp add: get_top_pairs_def)
    next
      case ps: (Inr ps)
      have "ps = map snd (filter kept_pair tickers)"
        using ps by (rule usdt_pairs_filter)
      with Some Inr ps show ?thesis
        by (simp add: get_top_pairs_def append_results_takeWhile)
    qed
  qed
qed

section \<open>Properties of the single-ticker fetch\<close>

text \<open>
  A successful fetch copies every field that the response holds, whatever its value,
  and puts the \<^verbatim>\<open>int\<close> 0 for a field whose key is absent.
\<close>

lemma get_ticker_fields:
  assumes "exchanges c n = Some ex" and "fetch_ticker ex symb = Inr t"
  shows "\<exists>r. get_ticker c now n symb = Some r \<and> symbol r = PStr symb \<and>
     price r = dict_get t ''last'' (PInt 0) \<and>
     volume_24h r = dict_get t ''quoteVolume'' (PInt 0) \<and>
     change_24h r = dict_get t ''percentage'' (PInt 0) \<and>
     high_24h r = dict_get t ''high'' (PInt 0) \<and>
     low_24h r = dict_get t ''low'' (PInt 0)"
  using assms by (simp add: get_ticker_def ticker_of_def)

section \<open>Properties of the aggregation\<close>

lemma in_set_update:
  "p \<in> set (AList.update k v al) \<Longrightarrow> p \<in> set al \<or> p = (k, v)"
  by (induction al) (auto split: if_splits)

lemma dict_key_idem: "dict_key (dict_key x) = dict_key x"
proof (cases x)
  case (PFloat f)
  then show ?thesis by (cases f) simp_all
qed simp_all

lemma bucket_obs_key: "bucket_obs (dict_key s) obs = bucket_obs s obs"
  by (simp add: bucket_obs_def dict_key_idem)

text \<open>The bucket that a round of the first loop works on has the figures of \<open>bucket_or_new\<close>.\<close>

lemma add_ticker_Inr:
  assumes "add_ticker e t m = Inr m'"
  obtains v d0 where "py_add (total_volume_24h d0) (volume_24h t) = Inr v"
    and "m' = AList.update (dict_key (symbol t))
          (d0\<lparr>agg_exchanges := agg_exchanges d0 @ [observation_of e t],
              total_volume_24h := v\<rparr>) m"
    and "d0 = (case map_of m (dict_key (symbol t)) of
                 None \<Rightarrow> new_bucket (symbol t) | Some d \<Rightarrow> d)"
  using assms
  by (auto simp: add_ticker_def Let_def split: sum.splits)

lemma bucket_figures:
  assumes "d0 = (case map_of m k of None \<Rightarrow> new_bucket symb | Some d \<Rightarrow> d)"
  shows "agg_exchanges d0 = agg_exchanges (bucket_or_new m k)"
    and "total_volume_24h d0 = total_volume_24h (bucket_or_new m k)"
    and "avg_price d0 = avg_price (bucket_or_new m k)"
    and "avg_change_24h d0 = avg_change_24h (bucket_or_new m k)"
    and "max_change_24h d0 = max_change_24h (bucket_or_new m k)"
  using assms
  by (cases "map_of m k"; simp add: bucket_or_new_def new_bucket_def)+

lemma add_tickers_distinct:
  "add_tickers m obs = Inr m' \<Longrightarrow> distinct (map fst m) \<Longrightarrow> distinct (map fst m')"
proof (induction obs arbitrary: m)
  case Nil
  then show ?case by simp
next
  case (Cons p obs)
  obtain e t where p: "p = (e, t)" by (cases p)
  from Cons.prems(1) obtain m1 where m1: "add_ticker e t m = Inr m1"
    and rest: "add_tickers m1 obs = Inr m'"
    unfolding p by (auto split: sum.splits)
  from m1 Cons.prems(2) have "distinct (map fst m1)"
    by (auto elim!: add_ticker_Inr simp: distinct_update)
  with rest show ?case by (rule Cons.IH)
qed

text \<open>The key of a bucket is the representative of the symbol that the bucket holds.\<close>

lemma add_tickers_symbols:
  assumes "add_tickers m obs = Inr m'"
    and "\<And>q. q \<in> set m \<Longrightarrow> dict_key (agg_symbol (snd q)) = fst q"
    and "p \<in> set m'"
  shows "dict_key (agg_symbol (snd p)) = fst p"
  using assms
proof (induction obs arbitrary: m)
  case Nil
  then show ?case by simp
next
  case (Cons ob obs)
  obtain e t where ob: "ob = (e, t)" by (cases ob)
  from Cons.prems(1) obtain m1 where m1: "add_ticker e t m = Inr m1"
    and rest: "add_tickers m1 obs = Inr m'"
    unfolding ob by (auto split: sum.splits)
  from m1 obtain v d0 where m1_eq: "m1 = AList.update (dict_key (symbol t))
          (d0\<lparr>agg_exchanges := agg_exchanges d0 @ [observation_of e t],
              total_volume_24h := v\<rparr>) m"
    and d0: "d0 = (case map_of m (dict_key (symbol t)) of
                 None \<Rightarrow> new_bucket (symbol t) | Some d \<Rightarrow> d)"
    by (rule add_ticker_Inr)
  have k: "dict_key (agg_symbol d0) = dict_key (symbol t)"
  proof (cases "map_of m (dict_key (symbol t))")
    case None
    with d0 show ?thesis by (simp add: new_bucket_def)
  next
    case (Some d)
    then have "(dict_key (symbol t), d) \<in> set m" by (rule map_of_SomeD)
    from Cons.prems(2)[OF this] Some d0 show ?thesis by simp
  qed
  have "dict_key (agg_symbol (snd q)) = fst q" if "q \<in> set m1" for q
    using in_set_update[OF that[unfolded m1_eq]] Cons.prems(2)[of q] k by auto
  with rest show ?case
    using Cons.prems(3) by (rule Cons.IH)
qed

lemma grown_Nil: "grown d [] d"
  by (simp add: grown_def)

lemma grown_Cons:
  assumes "py_add (total_volume_24h d0) (obs_volume_24h ob) = Inr v"
    and "grown d1 os d"
    and "agg_exchanges d1 = agg_exchanges d0 @ [ob]" and "total_volume_24h d1 = v"
    and "avg_price d1 = avg_price d0" and "avg_change_24h d1 = avg_change_24h d0"
    and "max_change_24h d1 = max_change_24h d0"
  shows "grown d0 (ob # os) d"
  using assms by (simp add: grown_def)

lemma add_tickers_lookup:
  assumes "add_tickers m obs = Inr m'" and "dict_key s = s"
  shows "if bucket_obs s obs = [] then map_of m' s = map_of m s
         else \<exists>d. map_of m' s = Some d \<and> grown (bucket_or_new m s) (bucket_obs s obs) d"
  using assms(1)
proof (induction obs arbitrary: m)
  case Nil
  then show ?case by (simp add: bucket_obs_def)
next
  case (Cons p obs)
  obtain e t where p: "p = (e, t)" by (cases p)
  from Cons.prems obtain m1 where m1: "add_ticker e t m = Inr m1"
    and rest: "add_tickers m1 obs = Inr m'"
    unfolding p by (auto split: sum.splits)
  let ?k = "dict_key (symbol t)"
  from m1 obtain v d0 where v: "py_add (total_volume_24h d0) (volume_24h t) = Inr v"
    and m1_eq: "m1 = AList.update ?k
          (d0\<lparr>agg_exchanges := agg_exchanges d0 @ [observation_of e t],
              total_volume_24h := v\<rparr>) m"
    and d0: "d0 = (case map_of m ?k of None \<Rightarrow> new_bucket (symbol t) | Some d \<Rightarrow> d)"
    by (rule add_ticker_Inr)
  note f = bucket_figures[OF d0]
  note IH = Cons.IH[OF rest]
  show ?case
  proof (cases "?k = s")
    case False
    then have b: "bucket_obs s (p # obs) = bucket_obs s obs"
      by (simp add: bucket_obs_def p assms(2))
    from False have l: "map_of m1 s = map_of m s"
      by (simp add: m1_eq update_conv')
    then have n: "bucket_or_new m1 s = bucket_or_new m s"
      by (simp add: bucket_or_new_def)
    from IH show ?thesis unfolding b l n .
  next
    case True
    let ?ob = "observation_of e t"
    let ?d1 = "d0\<lparr>agg_exchanges := agg_exchanges d0 @ [?ob], total_volume_24h := v\<rparr>"
    from True have b: "bucket_obs s (p # obs) = ?ob # bucket_obs s obs"
      by (simp add: bucket_obs_def p assms(2))
    from True have l: "map_of m1 s = Some ?d1"
      by (simp add: m1_eq update_conv')
    then have n: "bucket_or_new m1 s = ?d1"
      by (simp add: bucket_or_new_def)
    have v': "py_add (total_volume_24h (bucket_or_new m s)) (obs_volume_24h ?ob) = Inr v"
      using v unfolding f True by (simp add: observation_of_def)
    have g1: "agg_exchanges ?d1 = agg_exchanges (bucket_or_new m s) @ [?ob]"
      "total_volume_24h ?d1 = v" "avg_price ?d1 = avg_price (bucket_or_new m s)"
      "avg_change_24h ?d1 = avg_change_24h (bucket_or_new m s)"
      "max_change_24h ?d1 = max_change_24h (bucket_or_new m s)"
      using f unfolding True by simp_all
    show ?thesis
    proof (cases "bucket_obs s obs = []")
      case e: True
      with IH l have "map_of m' s = Some ?d1" by simp
      moreover have "grown (bucket_or_new m s) [?ob] ?d1"
        using v' grown_Nil[of ?d1] g1 by (rule grown_Cons)
      ultimately show ?thesis by (simp add: b e)
    next
      case ne: False
      with IH n obtain d where d: "map_of m' s = Some d" "grown ?d1 (bucket_obs s obs) d"
        by auto
      have "grown (bucket_or_new m s) (?ob # bucket_obs s obs) d"
        using v' d(2) g1 by (rule grown_Cons)
      with d(1) show ?thesis by (simp add: b)
    qed
  qed
qed

lemma bucket_obs_Nil_iff:
  "bucket_obs s obs = [] \<longleftrightarrow> dict_key s \<notin> dict_key ` symbol ` snd ` set obs"
proof -
  have "dict_key s \<in> dict_key ` symbol ` snd ` set obs \<longleftrightarrow>
      (\<exists>p \<in> set obs. dict_key (symbol (snd p)) = dict_key s)"
    by (force simp: image_iff)
  then show ?thesis
    by (simp add: bucket_obs_def filter_empty_conv)
qed

text \<open>The symbol map after the first loop, started on the empty map.\<close>

lemma first_loop_symbols:
  assumes "add_tickers [] obs = Inr m" and "(s, d) \<in> set m"
  shows "dict_key (agg_symbol d) = s" and "dict_key s = s"
proof -
  from add_tickers_symbols[OF assms(1) _ assms(2)]
  show k: "dict_key (agg_symbol d) = s" by simp
  show "dict_key s = s"
    unfolding k[symmetric] by (rule dict_key_idem)
qed

lemma first_loop_entry:
  assumes "add_tickers [] obs = Inr m"
  shows "(s, d) \<in> set m \<longleftrightarrow>
     dict_key s = s \<and> bucket_obs s obs \<noteq> [] \<and> map_of m s = Some d \<and>
     grown (new_bucket s) (bucket_obs s obs) d"
proof -
  have dist: "distinct (map fst m)"
    using add_tickers_distinct[OF assms] by simp
  then have mem: "(s, d) \<in> set m \<longleftrightarrow> map_of m s = Some d"
    by (simp add: map_of_eq_Some_iff)
  show ?thesis
  proof (cases "dict_key s = s")
    case True
    from add_tickers_lookup[OF assms True] True show ?thesis
      unfolding mem by (auto simp: bucket_or_new_def split: if_splits)
  next
    case False
    with first_loop_symbols(2)[OF assms, of s d] show ?thesis by blast
  qed
qed

lemma first_loop_keys:
  assumes "add_tickers [] obs = Inr m"
  shows "distinct (map fst m)" and "fst ` set m = dict_key ` symbol ` snd ` set obs"
proof -
  show "distinct (map fst m)"
    using add_tickers_distinct[OF assms] by simp
  have "s \<in> fst ` set m \<longleftrightarrow> s \<in> dict_key ` symbol ` snd ` set obs" for s
  proof (cases "dict_key s = s")
    case True
    from add_tickers_lookup[OF assms True] map_of_eq_None_iff[of m s] True show ?thesis
      by (auto simp: bucket_obs_Nil_iff split: if_splits)
  next
    case False
    have "s \<notin> fst ` set m"
      using first_loop_symbols(2)[OF assms] False by auto
    moreover have "s \<notin> dict_key ` symbol ` snd ` set obs"
      using False dict_key_idem by auto
    ultimately show ?thesis by simp
  qed
  then show "fst ` set m = dict_key ` symbol ` snd ` set obs" by blast
qed

lemma calculate_averages_Inr:
  assumes "calculate_averages m = Inr m'"
  shows "map fst m' = map fst m"
    and "(s, a) \<in> set m' \<Longrightarrow> \<exists>d. (s, d) \<in> set m \<and> calculate_bucket d = Inr a"
  using assms
proof (induction m arbitrary: m')
  case Nil
  { case 1 then show ?case by simp }
  { case 2 then show ?case by simp }
next
  case (Cons p m)
  obtain k d where p: "p = (k, d)" by (cases p)
  { case 1
    then obtain a' r where a: "calculate_bucket d = Inr a'" and r: "calculate_averages m = Inr r"
      and m': "m' = (k, a') # r"
      unfolding p by (auto split: sum.splits)
    from Cons.IH(1)[OF r] show ?case by (simp add: m' p) }
  { case 2
    from 2(2) obtain a' r where a: "calculate_bucket d = Inr a'" and r: "calculate_averages m = Inr r"
      and m': "m' = (k, a') # r"
      unfolding p by (auto split: sum.splits)
    from 2(1) m' have "(s, a) = (k, a') \<or> (s, a) \<in> set r" by simp
    then show ?case
    proof
      assume "(s, a) = (k, a')"
      with a show ?thesis by (auto simp: p)
    next
      assume "(s, a) \<in> set r"
      from Cons.IH(2)[OF this r] show ?thesis by (auto simp: p)
    qed }
qed

lemma calculate_bucket_Inr:
  assumes "calculate_bucket d = Inr a" and "agg_exchanges d \<noteq> []"
  shows "agg_symbol a = agg_symbol d" and "agg_exchanges a = agg_exchanges d"
    and "total_volume_24h a = total_volume_24h d"
    and "py_mean (map obs_price (agg_exchanges d)) = Inr (avg_price a)"
    and "py_mean (map obs_change_24h (agg_exchanges d)) = Inr (avg_change_24h a)"
    and "py_max (map obs_change_24h (agg_exchanges d)) = Inr (max_change_24h a)"
  using assms
  by (auto simp: calculate_bucket_def py_mean_def Let_def split: sum.splits)

lemma aggregate_Inr:
  assumes "aggregate d = Inr m"
  obtains m1 where "add_tickers [] (observations d) = Inr m1"
    and "calculate_averages m1 = Inr m"
  using assms by (auto simp: aggregate_def split: sum.splits)

lemma aggregate_keys:
  assumes "aggregate d = Inr m"
  shows "distinct (map fst m)"
    and "fst ` set m = dict_key ` symbol ` snd ` set (observations d)"
proof -
  from assms obtain m1 where m1: "add_tickers [] (observations d) = Inr m1"
    and m: "calculate_averages m1 = Inr m"
    by (rule aggregate_Inr)
  have k: "map fst m = map fst m1"
    using m by (rule calculate_averages_Inr(1))
  show "distinct (map fst m)"
    unfolding k using m1 by (rule first_loop_keys(1))
  have "fst ` set m = set (map fst m)" by simp
  also have "\<dots> = fst ` set m1" unfolding k by simp
  finally show "fst ` set m = dict_key ` symbol ` snd ` set (observations d)"
    using first_loop_keys(2)[OF m1] by simp
qed

lemma aggregate_bucket:
  assumes "aggregate d = Inr m" and "(s, a) \<in> set m"
  shows "aggregates a (bucket_obs s (observations d))" and "dict_key (agg_symbol a) = s"
proof -
  let ?os = "bucket_obs s (observations d)"
  from assms(1) obtain m1 where m1: "add_tickers [] (observations d) = Inr m1"
    and m: "calculate_averages m1 = Inr m"
    by (rule aggregate_Inr)
  from calculate_averages_Inr(2)[OF m assms(2)] obtain d0
    where d0: "(s, d0) \<in> set m1" and c: "calculate_bucket d0 = Inr a"
    by blast
  from d0 have ne: "?os \<noteq> []" and g: "grown (new_bucket s) ?os d0"
    by (simp_all add: first_loop_entry[OF m1])
  from g have ex: "agg_exchanges d0 = ?os"
    and tot: "py_sum (map obs_volume_24h ?os) = Inr (total_volume_24h d0)"
    by (simp_all add: grown_def new_bucket_def py_sum_def)
  from ne ex have ne0: "agg_exchanges d0 \<noteq> []" by simp
  note cb = calculate_bucket_Inr[OF c ne0]
  show "aggregates a ?os"
    using ne cb tot by (simp add: aggregates_def ex)
  show "dict_key (agg_symbol a) = s"
    using cb(1) first_loop_symbols(1)[OF m1 d0] by simp
qed

lemma aggregate_bucket_symbol:
  assumes "aggregate d = Inr m" and "(s, a) \<in> set m"
  shows "bucket_obs (agg_symbol a) obs = bucket_obs s obs"
  using bucket_obs_key[of "agg_symbol a" obs]
  by (simp add: aggregate_bucket(2)[OF assms])


section \<open>Properties of the arithmetic\<close>

lemma py_sum_from_ints:
  "py_sum_from (PInt a) (map PInt is) = Inr (PInt (a + sum_list is))"
  by (induction "is" arbitrary: a) (simp_all add: add.assoc)

lemma ints_map: "list_all is_int xs \<Longrightarrow> xs = map PInt (map int_val xs)"
proof (induction xs)
  case Nil
  then show ?case by simp
next
  case (Cons x xs)
  then show ?case by (cases x) simp_all
qed

lemma py_sum_ints:
  "list_all is_int xs \<Longrightarrow> py_sum xs = Inr (PInt (sum_list (map int_val xs)))"
  using py_sum_from_ints[of 0 "map int_val xs"] ints_map[of xs]
  by (simp add: py_sum_def)

lemma py_gt_comparable:
  assumes "comparable x" and "comparable y"
  shows "py_gt x y = Inr (num_key y < num_key x)"
proof -
  have f: "fgt f g = (float_key g < float_key f)" if "f \<noteq> NaN" "g \<noteq> NaN" for f g
    using that by (cases f; cases g) simp_all
  from assms show ?thesis
  proof (cases x; cases y)
    fix a g assume "x = PInt a" "y = PFloat g"
    with assms f[of "Finite (of_int a)" g] show ?thesis by (cases g) simp_all
  next
    fix f' b assume "x = PFloat f'" "y = PInt b"
    with assms f[of f' "Finite (of_int b)"] show ?thesis by (cases f') simp_all
  next
    fix f' g assume "x = PFloat f'" "y = PFloat g"
    with assms f[of f' g] show ?thesis by (cases f'; cases g) simp_all
  qed simp_all
qed

lemma py_max_from_greatest:
  assumes "comparable m" and "list_all comparable xs"
  obtains r where "py_max_from m xs = Inr r" and "r \<in> set (m # xs)"
    and "\<forall>x \<in> set (m # xs). num_key x \<le> num_key r"
  using assms
proof (induction xs arbitrary: m thesis)
  case Nil
  then show ?case by simp
next
  case (Cons x xs)
  from Cons.prems(2,3) have g: "py_gt x m = Inr (num_key m < num_key x)"
    by (simp add: py_gt_comparable)
  let ?m' = "if num_key m < num_key x then x else m"
  from Cons.prems(2,3) have c: "comparable ?m'" "list_all comparable xs" by simp_all
  obtain r where r: "py_max_from ?m' xs = Inr r" "r \<in> set (?m' # xs)"
    "\<forall>y \<in> set (?m' # xs). num_key y \<le> num_key r"
    using Cons.IH[OF _ c] by blast
  from r(3) have "num_key ?m' \<le> num_key r" by simp
  then have "num_key m \<le> num_key r" "num_key x \<le> num_key r"
    by (auto split: if_splits)
  with r show ?case
    by (intro Cons.prems(1)[of r]) (auto simp: g split: if_splits)
qed

lemma py_max_greatest:
  assumes "py_max xs = Inr r" and "list_all comparable xs"
  shows "r \<in> set xs" and "\<forall>x \<in> set xs. num_key x \<le> num_key r"
proof -
  from assms(1) obtain m ys where xs: "xs = m # ys" by (cases xs) auto
  with assms(2) have c: "comparable m" "list_all comparable ys" by simp_all
  obtain r' where "py_max_from m ys = Inr r'" "r' \<in> set (m # ys)"
    "\<forall>x \<in> set (m # ys). num_key x \<le> num_key r'"
    using py_max_from_greatest[OF c] by blast
  with assms(1) show "r \<in> set xs" and "\<forall>x \<in> set xs. num_key x \<le> num_key r"
    by (simp_all add: xs)
qed

lemma fadd_nonneg:
  assumes "f \<noteq> NaN" "(0, 0) \<le> float_key f" "g \<noteq> NaN" "(0, 0) \<le> float_key g"
  shows "fadd f g \<noteq> NaN \<and> (0, 0) \<le> float_key (fadd f g)"
proof (cases f; cases g)
  fix a b assume "f = Finite a" "g = Finite b"
  with assms show ?thesis
    using round_double_nonneg[of "a + b"] round_double_not_NaN[of "a + b"] by simp
qed (use assms in simp_all)

lemma float_of_int_nonneg:
  assumes "float_of_int a = Inr x" and "0 \<le> a"
  shows "0 \<le> x"
  using assms round_double_nonneg[of "of_int a"]
  by (cases "round_double (of_int a)") (simp_all add: float_of_int_def)

lemma comparable_PFloat: "comparable (PFloat f) \<longleftrightarrow> f \<noteq> NaN"
  by (cases f) simp_all

lemma py_add_nonneg:
  assumes "py_add x y = Inr z" and "nonneg x" and "nonneg y"
  shows "nonneg z"
proof (cases x; cases y)
  fix a b assume "x = PInt a" "y = PInt b"
  with assms show ?thesis by (auto simp: nonneg_def)
next
  fix a g assume xy: "x = PInt a" "y = PFloat g"
  with assms(1) obtain r where r: "float_of_int a = Inr r" and z: "z = PFloat (fadd (Finite r) g)"
    by (auto split: sum.splits)
  from assms(2) xy have "0 \<le> a" by (simp add: nonneg_def)
  with r have "0 \<le> r" by (rule float_of_int_nonneg)
  with assms(3) xy fadd_nonneg[of "Finite r" g] show ?thesis
    by (simp add: nonneg_def z comparable_PFloat)
next
  fix f b assume xy: "x = PFloat f" "y = PInt b"
  with assms(1) obtain r where r: "float_of_int b = Inr r" and z: "z = PFloat (fadd f (Finite r))"
    by (auto split: sum.splits)
  from assms(3) xy have "0 \<le> b" by (simp add: nonneg_def)
  with r have "0 \<le> r" by (rule float_of_int_nonneg)
  with assms(2) xy fadd_nonneg[of f "Finite r"] show ?thesis
    by (simp add: nonneg_def z comparable_PFloat)
next
  fix f g assume xy: "x = PFloat f" "y = PFloat g"
  with assms fadd_nonneg[of f g] show ?thesis
    by (auto simp: nonneg_def comparable_PFloat)
qed (use assms in \<open>simp_all add: nonneg_def\<close>)

lemma py_sum_from_nonneg:
  "py_sum_from acc xs = Inr r \<Longrightarrow> nonneg acc \<Longrightarrow> list_all nonneg xs \<Longrightarrow> nonneg r"
proof (induction xs arbitrary: acc)
  case Nil
  then show ?case by simp
next
  case (Cons x xs)
  from Cons.prems(1) obtain acc' where a: "py_add acc x = Inr acc'"
    and r: "py_sum_from acc' xs = Inr r"
    by (auto split: sum.splits)
  from a Cons.prems(2,3) have "nonneg acc'"
    by (auto intro: py_add_nonneg)
  with r Cons.prems(3) show ?case
    by (auto intro: Cons.IH)
qed


section \<open>Aggregation of floats\<close>

lemma py_add_float:
  assumes "float_or_zero x" and "is_float y"
  obtains f where "py_add x y = Inr (PFloat f)"
proof -
  from assms(2) obtain g where y: "y = PFloat g" by (cases y) auto
  from assms(1) consider f where "x = PFloat f" | "x = PInt 0"
    by (cases x) (auto simp: float_or_zero_def)
  then show ?thesis
  proof cases
    case 1
    then show ?thesis using that y by simp
  next
    case 2
    have "float_of_int 0 = Inr 0"
      using float_of_int_small[of 0] by simp
    then show ?thesis using that 2 y by simp
  qed
qed

lemma py_sum_from_floats:
  assumes "float_or_zero acc" and "list_all is_float xs"
  obtains r where "py_sum_from acc xs = Inr r" and "float_or_zero r"
    and "xs \<noteq> [] \<longrightarrow> is_float r"
  using assms
proof (induction xs arbitrary: acc thesis)
  case Nil
  then show ?case by simp
next
  case (Cons x xs)
  from Cons.prems(2,3) obtain f where f: "py_add acc x = Inr (PFloat f)"
    by (auto elim: py_add_float)
  have fz: "float_or_zero (PFloat f)" by (simp add: float_or_zero_def)
  obtain r where r: "py_sum_from (PFloat f) xs = Inr r" "float_or_zero r"
    using Cons.IH[OF _ fz] Cons.prems(3) by auto
  have "is_float r"
  proof (cases xs)
    case Nil
    with r(1) show ?thesis by auto
  next
    case (Cons y ys)
    obtain r' where "py_sum_from (PFloat f) xs = Inr r'" "xs \<noteq> [] \<longrightarrow> is_float r'"
      using Cons.IH[OF _ fz] Cons.prems(3) by auto
    with r(1) Cons show ?thesis by simp
  qed
  with r f show ?case
    by (intro Cons.prems(1)[of r]) simp_all
qed

lemma py_div_len_float:
  assumes "is_float x" and "0 < n" and "n < 2 ^ 53"
  obtains r where "py_div_len x n = Inr r"
proof -
  from assms(1) obtain f where x: "x = PFloat f" by (cases x) auto
  have "\<bar>int n\<bar> < 2 ^ 53"
    using assms(3) by (metis abs_of_nat of_nat_less_iff of_nat_numeral of_nat_power)
  then have "float_of_int (int n) = Inr (of_int (int n))"
    by (rule float_of_int_small)
  with assms(2) show ?thesis
    using that by (simp add: x)
qed

lemma py_mean_floats:
  assumes "list_all is_float xs" and "xs \<noteq> []" and "length xs < 2 ^ 53"
  obtains r where "py_mean xs = Inr r"
proof -
  have "float_or_zero (PInt 0)" by (simp add: float_or_zero_def)
  then obtain s where s: "py_sum xs = Inr s" "is_float s"
    using py_sum_from_floats[OF _ assms(1), of "PInt 0"] assms(2)
    by (auto simp: py_sum_def)
  from assms(2) have "0 < length xs" by simp
  with s(2) assms(3) obtain r where "py_div_len s (length xs) = Inr r"
    by (auto elim: py_div_len_float)
  with s(1) show ?thesis
    using that by (simp add: py_mean_def)
qed

lemma py_max_from_floats:
  "is_float m \<Longrightarrow> list_all is_float xs \<Longrightarrow> \<exists>r. py_max_from m xs = Inr r"
proof (induction xs arbitrary: m)
  case Nil
  then show ?case by simp
next
  case (Cons x xs)
  from Cons.prems obtain f g where "m = PFloat f" "x = PFloat g"
    by (cases m; cases x) auto
  with Cons show ?case by simp
qed

lemma py_max_floats:
  "list_all is_float xs \<Longrightarrow> xs \<noteq> [] \<Longrightarrow> \<exists>r. py_max xs = Inr r"
  by (cases xs) (simp_all add: py_max_from_floats)

lemma calculate_bucket_floats:
  assumes "list_all (\<lambda>ob. is_float (obs_price ob) \<and> is_float (obs_change_24h ob)) (agg_exchanges d)"
    and "length (agg_exchanges d) < 2 ^ 53"
  shows "\<exists>a. calculate_bucket d = Inr a"
proof (cases "agg_exchanges d = []")
  case True
  then show ?thesis by (simp add: calculate_bucket_def)
next
  case False
  let ?ps = "map obs_price (agg_exchanges d)" and ?cs = "map obs_change_24h (agg_exchanges d)"
  from assms(1) have p: "list_all is_float ?ps" and c: "list_all is_float ?cs"
    by (simp_all add: list_all_iff)
  from False assms(2) have n: "?ps \<noteq> []" "?cs \<noteq> []" "length ?ps < 2 ^ 53" "length ?cs < 2 ^ 53"
    by simp_all
  obtain ap where ap: "py_mean ?ps = Inr ap"
    using py_mean_floats[OF p n(1) n(3)] by blast
  obtain ac where ac: "py_mean ?cs = Inr ac"
    using py_mean_floats[OF c n(2) n(4)] by blast
  obtain mc where mc: "py_max ?cs = Inr mc"
    using py_max_floats[OF c n(2)] by blast
  from ap ac mc False show ?thesis
    by (auto simp: calculate_bucket_def py_mean_def Let_def split: sum.splits)
qed

lemma calculate_averages_total:
  "(\<And>p. p \<in> set m \<Longrightarrow> \<exists>a. calculate_bucket (snd p) = Inr a) \<Longrightarrow>
   \<exists>m'. calculate_averages m = Inr m'"
proof (induction m)
  case Nil
  then show ?case by simp
next
  case (Cons p m)
  obtain k d where p: "p = (k, d)" by (cases p)
  from Cons.prems[of p] obtain a where a: "calculate_bucket d = Inr a"
    by (auto simp: p)
  from Cons.IH Cons.prems obtain m' where "calculate_averages m = Inr m'"
    by auto
  with a show ?case by (simp add: p)
qed

lemma add_tickers_floats:
  assumes "\<And>p. p \<in> set m \<Longrightarrow> float_or_zero (total_volume_24h (snd p))"
    and "list_all (\<lambda>p. is_float (volume_24h (snd p))) obs"
  shows "\<exists>m'. add_tickers m obs = Inr m'"
  using assms
proof (induction obs arbitrary: m)
  case Nil
  then show ?case by simp
next
  case (Cons p obs)
  obtain e t where p: "p = (e, t)" by (cases p)
  let ?k = "dict_key (symbol t)"
  define d0 where "d0 = (case map_of m ?k of None \<Rightarrow> new_bucket (symbol t) | Some d \<Rightarrow> d)"
  have "float_or_zero (total_volume_24h d0)"
  proof (cases "map_of m ?k")
    case None
    then show ?thesis by (simp add: d0_def new_bucket_def float_or_zero_def)
  next
    case (Some d)
    then have "(?k, d) \<in> set m" by (rule map_of_SomeD)
    from Cons.prems(1)[OF this] Some show ?thesis by (simp add: d0_def)
  qed
  moreover from Cons.prems(2) have "is_float (volume_24h t)" by (simp add: p)
  ultimately obtain f where f: "py_add (total_volume_24h d0) (volume_24h t) = Inr (PFloat f)"
    by (auto elim: py_add_float)
  let ?m1 = "AList.update ?k
      (d0\<lparr>agg_exchanges := agg_exchanges d0 @ [observation_of e t],
          total_volume_24h := PFloat f\<rparr>) m"
  have m1: "add_ticker e t m = Inr ?m1"
    using f by (simp add: add_ticker_def d0_def Let_def)
  have "float_or_zero (total_volume_24h (snd q))" if "q \<in> set ?m1" for q
    using in_set_update[OF that] Cons.prems(1)[of q]
    by (auto simp: float_or_zero_def)
  moreover from Cons.prems(2) have "list_all (\<lambda>p. is_float (volume_24h (snd p))) obs"
    by simp
  ultimately obtain m' where "add_tickers ?m1 obs = Inr m'"
    using Cons.IH[of ?m1] by blast
  with m1 show ?case by (simp add: p)
qed

lemma aggregate_floats:
  assumes "list_all (\<lambda>p. float_ticker (snd p)) (observations d)"
    and "length (observations d) < 2 ^ 53"
  shows "\<exists>m. aggregate d = Inr m"
proof -
  let ?obs = "observations d"
  from assms(1) have "list_all (\<lambda>p. is_float (volume_24h (snd p))) ?obs"
    by (simp add: list_all_iff float_ticker_def)
  then obtain m1 where m1: "add_tickers [] ?obs = Inr m1"
    using add_tickers_floats[of "[]" ?obs] by auto
  have "\<exists>a. calculate_bucket (snd p) = Inr a" if "p \<in> set m1" for p
  proof -
    from that have "(fst p, snd p) \<in> set m1" by simp
    then have g: "grown (new_bucket (fst p)) (bucket_obs (fst p) ?obs) (snd p)"
      using first_loop_entry[OF m1, of "fst p" "snd p"] by blast
    then have ex: "agg_exchanges (snd p) = bucket_obs (fst p) ?obs"
      by (simp add: grown_def new_bucket_def)
    have "length (bucket_obs (fst p) ?obs) \<le> length ?obs"
      by (simp add: bucket_obs_def)
    with assms(2) have l: "length (agg_exchanges (snd p)) < 2 ^ 53"
      unfolding ex by simp
    have "list_all (\<lambda>ob. is_float (obs_price ob) \<and> is_float (obs_change_24h ob))
        (agg_exchanges (snd p))"
      unfolding ex using assms(1)
      by (auto simp: list_all_iff bucket_obs_def float_ticker_def observation_of_def)
    then show ?thesis using l by (rule calculate_bucket_floats)
  qed
  then obtain m where "calculate_averages m1 = Inr m"
    using calculate_averages_total[of m1] by blast
  with m1 show ?thesis by (simp add: aggregate_def)
qed


section \<open>Properties of the pulse\<close>

lemma set_rank_pulse: "set (rank_pulse n m) \<subseteq> snd ` set m"
  using set_py_take[of n "sort_desc volume_key (map snd m)"]
  by (simp add: rank_pulse_def set_sort_desc)

lemma pulse_from_aggregate:
  assumes "get_market_pulse c now limit = Inr pulse"
  obtains m where "aggregate (collect_all_exchanges c now None limit) = Inr m"
    and "pulse = rank_pulse limit m"
  using assms by (auto simp: get_market_pulse_def split: sum.splits)

lemma pulse_bucket:
  assumes "get_market_pulse c now limit = Inr pulse" and "a \<in> set pulse"
  shows "aggregates a
           (bucket_obs (agg_symbol a) (observations (collect_all_exchanges c now None limit)))"
proof -
  from assms(1) obtain m where m: "aggregate (collect_all_exchanges c now None limit) = Inr m"
    and p: "pulse = rank_pulse limit m"
    by (rule pulse_from_aggregate)
  from assms(2) p set_rank_pulse[of limit m] obtain s where s: "(s, a) \<in> set m"
    by auto
  from aggregate_bucket(1)[OF m s] show ?thesis
    by (simp only: aggregate_bucket_symbol[OF m s])
qed


lemma get_top_pairs_positive:
  assumes "r \<in> set (get_top_pairs c now n limit)"
  shows "py_gt (volume_24h r) (PInt 0) = Inr True"
proof -
  let ?has = "\<lambda>t::raw_ticker. t ''symbol'' \<noteq> None"
  from assms have "get_top_pairs c now n limit \<noteq> []" by auto
  with get_top_pairs_shape[of c now n limit]
  obtain ex tickers where res: "get_top_pairs c now n limit =
      map (top_ticker now) (takeWhile ?has
          (py_take limit (sort_desc quote_volume (map snd (filter kept_pair tickers)))))"
    by auto
  from assms res obtain t where t: "r = top_ticker now t"
    and "t \<in> set (takeWhile ?has
          (py_take limit (sort_desc quote_volume (map snd (filter kept_pair tickers)))))"
    by auto
  then have "t \<in> set (py_take limit (sort_desc quote_volume (map snd (filter kept_pair tickers))))"
    by (rule_tac set_takeWhileD[THEN conjunct1])
  then have "t \<in> set (map snd (filter kept_pair tickers))"
    using set_py_take set_sort_desc by fastforce
  then obtain k where "kept_pair (k, t)"
    by auto
  then show ?thesis
    by (simp add: kept_pair_def t volume_top_ticker)
qed

lemma in_observations:
  "(e, t) \<in> set (observations d) \<longleftrightarrow> (\<exists>ts. (e, ts) \<in> set d \<and> t \<in> set ts)"
  by (auto simp: observations_def)

lemma pulse_observation_positive:
  assumes "(e, t) \<in> set (observations (collect_all_exchanges c now None limit))"
  shows "py_gt (volume_24h t) (PInt 0) = Inr True"
proof -
  from assms obtain ts where ts: "(e, ts) \<in> set (collect_all_exchanges c now None limit)"
    and t: "t \<in> set ts"
    by (auto simp: in_observations)
  from collect_values(3)[OF ts] t have "t \<in> set (get_top_pairs c now e limit)"
    by (auto simp: exchange_tickers_def split: if_splits)
  then show ?thesis by (rule get_top_pairs_positive)
qed

lemma nonneg_comparable: "nonneg x \<Longrightarrow> comparable x"
  by (simp add: nonneg_def)

lemma pulse_total_nonneg:
  assumes "aggregate (collect_all_exchanges c now None limit) = Inr m" and "(s, a) \<in> set m"
  shows "nonneg (total_volume_24h a)"
proof -
  let ?obs = "observations (collect_all_exchanges c now None limit)"
  from aggregate_bucket(1)[OF assms]
  have sum: "py_sum (map obs_volume_24h (bucket_obs s ?obs)) = Inr (total_volume_24h a)"
    by (simp add: aggregates_def)
  have "nonneg (volume_24h (snd p))" if "p \<in> set ?obs" for p
  proof -
    from that have "(fst p, snd p) \<in> set ?obs" by simp
    then have "py_gt (volume_24h (snd p)) (PInt 0) = Inr True"
      by (rule pulse_observation_positive)
    then show ?thesis
      by (auto simp: py_gt_zero_True nonneg_def)
  qed
  then have "list_all nonneg (map obs_volume_24h (bucket_obs s ?obs))"
    by (auto simp: list_all_iff bucket_obs_def observation_of_def)
  moreover have "nonneg (PInt 0)" by (simp add: nonneg_def)
  ultimately show ?thesis
    using sum py_sum_from_nonneg[of "PInt 0" _ "total_volume_24h a"]
    by (simp add: py_sum_def)
qed

lemma pulse_entry_comparable:
  assumes "get_market_pulse c now limit = Inr pulse" and "a \<in> set pulse"
  shows "comparable (total_volume_24h a)"
proof -
  from assms(1) obtain m where m: "aggregate (collect_all_exchanges c now None limit) = Inr m"
    and p: "pulse = rank_pulse limit m"
    by (rule pulse_from_aggregate)
  from assms(2) p set_rank_pulse[of limit m] obtain s where s: "(s, a) \<in> set m"
    by auto
  from pulse_total_nonneg[OF m s] show ?thesis by (rule nonneg_comparable)
qed

lemma py_gt_False_iff:
  "comparable x \<Longrightarrow> comparable y \<Longrightarrow> py_gt y x = Inr False \<longleftrightarrow> num_key y \<le> num_key x"
  by (simp add: py_gt_comparable not_less)

section \<open>Errors of the aggregation\<close>

lemma float_of_int_error: "float_of_int i = Inl e \<Longrightarrow> e = OverflowError"
  by (simp add: float_of_int_def split: pyfloat.splits)

lemma py_add_error: "py_add x y = Inl e \<Longrightarrow> e = TypeError \<or> e = OverflowError"
  by (cases x; cases y) (auto split: sum.splits dest: float_of_int_error)

lemma py_sum_from_error:
  "py_sum_from acc xs = Inl e \<Longrightarrow> e = TypeError \<or> e = OverflowError"
proof (induction xs arbitrary: acc)
  case Nil
  then show ?case by simp
next
  case (Cons x xs)
  then show ?case
    by (cases "py_add acc x") (auto dest: py_add_error)
qed

lemma round_half_even_ge_floor: "\<lfloor>x\<rfloor> \<le> round_half_even x"
  by (simp add: round_half_even_def Let_def)

lemma round_double_positive:
  assumes "1 \<le> x" and "round_double x = Finite r"
  shows "0 < r"
proof -
  define e where "e = \<lfloor>log 2 x\<rfloor>"
  from assms(1) have x: "0 < x" by simp
  from assms(1) have "0 \<le> log 2 x" by simp
  then have e0: "0 \<le> e" by (simp add: e_def)
  then have "max e (- 1022) = e" by simp
  then have q: "ulp_exponent x = e - 52"
    using x unfolding ulp_exponent_def e_def by simp
  have "of_int e \<le> log 2 x" by (simp add: e_def)
  then have "2 powr of_int e \<le> x"
    using x by (simp add: le_log_iff)
  then have le: "2 powi e \<le> x"
    by (simp add: powr_real_of_int')
  have u: "0 < (2::real) powi (e - 52)" by simp
  have "(2::real) powi (52 + (e - 52)) = 2 powi 52 * 2 powi (e - 52)"
    by (rule power_int_add) simp
  then have "(2::real) powi e = 2 powi 52 * 2 powi (e - 52)"
    by simp
  with le have "2 powi 52 * 2 powi (e - 52) \<le> x" by simp
  then have "(2::real) powi 52 \<le> x / 2 powi (e - 52)"
    using u by (simp add: pos_le_divide_eq)
  moreover have "(1::real) \<le> 2 powi 52" by simp
  ultimately have "1 \<le> x / 2 powi (e - 52)" by (rule_tac order_trans)
  then have "1 \<le> \<lfloor>x / 2 powi (e - 52)\<rfloor>" by simp
  with round_half_even_ge_floor[of "x / 2 powi (e - 52)"]
  have "1 \<le> round_half_even (x / 2 powi (e - 52))" by linarith
  then have "0 < (of_int (round_half_even (x / 2 powi (e - 52))) :: real)" by simp
  with u have p: "0 < of_int (round_half_even (x / 2 powi (e - 52))) * (2::real) powi (e - 52)"
    by simp
  from assms(2) x have "r = of_int (round_half_even (x / 2 powi (e - 52))) * 2 powi (e - 52)"
    by (simp add: round_double_def q Let_def split: if_splits)
  with p show ?thesis by simp
qed

lemma float_of_int_positive:
  assumes "0 < i" and "float_of_int i = Inr d"
  shows "0 < d"
proof -
  from assms(1) have "1 \<le> (of_int i :: real)" by simp
  moreover from assms(2) have "round_double (of_int i) = Finite d"
    by (simp add: float_of_int_def split: pyfloat.splits)
  ultimately show ?thesis by (rule round_double_positive)
qed

lemma py_div_len_error:
  assumes "py_div_len x n = Inl e" and "0 < n"
  shows "e = TypeError \<or> e = OverflowError"
proof (cases x)
  case (PInt a)
  with assms show ?thesis by (auto split: pyfloat.splits)
next
  case (PFloat f)
  show ?thesis
  proof (cases "float_of_int (int n)")
    case (Inl e')
    with assms PFloat show ?thesis by (auto dest: float_of_int_error)
  next
    case (Inr d)
    from assms(2) have "0 < int n" by simp
    from float_of_int_positive[OF this Inr] have "d \<noteq> 0" by simp
    with assms PFloat Inr show ?thesis by simp
  qed
qed (use assms in simp_all)

lemma py_max_from_error: "py_max_from m xs = Inl e \<Longrightarrow> e = TypeError"
proof (induction xs arbitrary: m)
  case Nil
  then show ?case by simp
next
  case (Cons x xs)
  show ?case
  proof (cases "py_gt x m")
    case (Inl e')
    with Cons.prems have "e = e'" by simp
    moreover from Inl have "e' = TypeError"
      by (cases x; cases m) simp_all
    ultimately show ?thesis by simp
  next
    case (Inr b)
    with Cons show ?thesis by simp
  qed
qed

lemma calculate_bucket_error:
  assumes "calculate_bucket d = Inl e" and "agg_exchanges d \<noteq> []"
  shows "e = TypeError \<or> e = OverflowError"
proof -
  let ?ps = "map obs_price (agg_exchanges d)" and ?cs = "map obs_change_24h (agg_exchanges d)"
  from assms(2) have n: "0 < length ?ps" "0 < length ?cs" by simp_all
  from assms(2) obtain x xs where cs: "?cs = x # xs" by (cases "agg_exchanges d") auto
  have mx: "py_max ?cs = Inl e' \<Longrightarrow> e' = TypeError" for e'
    unfolding cs by (simp add: py_max_from_error)
  from assms show ?thesis
    using py_sum_from_error[of "PInt 0" ?ps] py_sum_from_error[of "PInt 0" ?cs]
      py_div_len_error[OF _ n(1)] py_div_len_error[OF _ n(2)] mx
    by (auto simp: calculate_bucket_def py_sum_def Let_def split: sum.splits)
qed

lemma add_tickers_error:
  "add_tickers m obs = Inl e \<Longrightarrow> e = TypeError \<or> e = OverflowError"
proof (induction obs arbitrary: m)
  case Nil
  then show ?case by simp
next
  case (Cons p obs)
  obtain n t where p: "p = (n, t)" by (cases p)
  show ?case
  proof (cases "add_ticker n t m")
    case (Inl e')
    with Cons.prems have "e = e'" by (simp add: p)
    moreover from Inl have "e' = TypeError \<or> e' = OverflowError"
      by (auto simp: add_ticker_def Let_def split: sum.splits dest: py_add_error)
    ultimately show ?thesis by simp
  next
    case (Inr m')
    with Cons show ?thesis by (simp add: p)
  qed
qed

lemma calculate_averages_error:
  assumes "calculate_averages m = Inl e"
    and "\<And>p. p \<in> set m \<Longrightarrow> agg_exchanges (snd p) \<noteq> []"
  shows "e = TypeError \<or> e = OverflowError"
  using assms
proof (induction m)
  case Nil
  then show ?case by simp
next
  case (Cons p m)
  obtain k d where p: "p = (k, d)" by (cases p)
  from Cons.prems(2)[of p] have ne: "agg_exchanges d \<noteq> []" by (simp add: p)
  show ?case
  proof (cases "calculate_bucket d")
    case (Inl e')
    with Cons.prems(1) have "e = e'" by (simp add: p)
    with calculate_bucket_error[OF Inl ne] show ?thesis by simp
  next
    case (Inr a)
    with Cons.prems(1) have "calculate_averages m = Inl e"
      by (simp add: p split: sum.splits)
    then show ?thesis
      using Cons.IH Cons.prems(2) by simp
  qed
qed

lemma aggregate_error:
  assumes "aggregate d = Inl e"
  shows "e = TypeError \<or> e = OverflowError"
proof (cases "add_tickers [] (observations d)")
  case (Inl e')
  with assms have "e = e'" by (simp add: aggregate_def)
  with add_tickers_error[OF Inl] show ?thesis by simp
next
  case (Inr m1)
  with assms have c: "calculate_averages m1 = Inl e" by (simp add: aggregate_def)
  have "agg_exchanges (snd p) \<noteq> []" if "p \<in> set m1" for p
  proof -
    from that have "(fst p, snd p) \<in> set m1" by simp
    then have "bucket_obs (fst p) (observations d) \<noteq> []"
      and "grown (new_bucket (fst p)) (bucket_obs (fst p) (observations d)) (snd p)"
      using first_loop_entry[OF Inr, of "fst p" "snd p"] by blast+
    then show ?thesis by (simp add: grown_def new_bucket_def)
  qed
  with c show ?thesis by (rule calculate_averages_error)
qed

section \<open>Properties of the ranking\<close>

lemma filter_take_prefix:
  "filter P (take n xs) = take (length (filter P (take n xs))) (filter P xs)"
proof -
  have "filter P xs = filter P (take n xs) @ filter P (drop n xs)"
    by (metis append_take_drop_id filter_append)
  then show ?thesis by simp
qed

lemma filter_py_take_prefix:
  "\<exists>k. filter P (py_take n xs) = take k (filter P xs)"
  unfolding py_take_def using filter_take_prefix[of P _ xs] by (metis (full_types))

lemma aggregate_symbols:
  assumes "aggregate d = Inr m"
  shows "map (dict_key \<circ> agg_symbol) (map snd m) = map fst m"
proof -
  have "dict_key (agg_symbol (snd p)) = fst p" if "p \<in> set m" for p
    using aggregate_bucket(2)[OF assms, of "fst p" "snd p"] that by simp
  then show ?thesis by simp
qed

lemma distinct_map_comp: "distinct (map (f \<circ> g) xs) \<Longrightarrow> distinct (map g xs)"
  by (metis distinct_map inj_on_imageI2 list.map_comp distinct_map[of f "map g xs"])

lemma distinct_py_take: "distinct xs \<Longrightarrow> distinct (py_take n xs)"
  by (simp add: py_take_def)

lemma distinct_map_sort_desc:
  "distinct (map f xs) \<Longrightarrow> distinct (map f (sort_desc key xs))"
proof -
  assume "distinct (map f xs)"
  then have "distinct (map f (rev xs))" by (simp add: rev_map[symmetric])
  then have "distinct (map f (sort_key key (rev xs)))"
    by (metis distinct_map distinct_sort set_sort)
  then show ?thesis
    by (simp add: sort_desc_def rev_map[symmetric])
qed

lemma map_py_take: "map f (py_take n xs) = py_take n (map f xs)"
  by (simp add: py_take_def take_map)

section \<open>Properties of the order of the observations\<close>

lemma mset_bucket_obs:
  "mset obs1 = mset obs2 \<Longrightarrow> mset (bucket_obs s obs1) = mset (bucket_obs s obs2)"
  by (simp add: bucket_obs_def)

lemma list_all_mset: "mset xs = mset ys \<Longrightarrow> list_all P xs = list_all P ys"
  using mset_eq_setD[of xs ys] by (simp add: list_all_iff)

lemma sum_list_map_mset:
  fixes f :: "'a \<Rightarrow> int"
  shows "mset xs = mset ys \<Longrightarrow> sum_list (map f xs) = sum_list (map f ys)"
  by (metis mset_map sum_mset_sum_list)

lemma py_sum_ints_mset:
  assumes "list_all is_int xs" and "mset xs = mset ys"
  shows "py_sum xs = py_sum ys"
proof -
  from assms(1) have "list_all is_int ys"
    unfolding list_all_mset[OF assms(2), of is_int] .
  with assms(1) show ?thesis
    by (simp add: py_sum_ints sum_list_map_mset[OF assms(2), of int_val])
qed

lemma py_mean_ints_mset:
  assumes "list_all is_int xs" and "mset xs = mset ys"
  shows "py_mean xs = py_mean ys"
  unfolding py_mean_def py_sum_ints_mset[OF assms] mset_eq_length[OF assms(2)] ..

lemma py_max_mset:
  assumes "list_all comparable xs" and "mset xs = mset ys"
    and "py_max xs = Inr r" and "py_max ys = Inr r'"
  shows "num_key r = num_key r'" and "comparable r" and "comparable r'"
proof -
  from assms(1) have c: "list_all comparable ys"
    unfolding list_all_mset[OF assms(2), of comparable] .
  from assms(2) have s: "set xs = set ys" by (rule mset_eq_setD)
  note g = py_max_greatest[OF assms(3) assms(1)] and g' = py_max_greatest[OF assms(4) c]
  from g(1) g'(2) s have "num_key r \<le> num_key r'" by blast
  moreover from g'(1) g(2) s have "num_key r' \<le> num_key r" by blast
  ultimately show "num_key r = num_key r'" by simp
  from g(1) assms(1) show "comparable r" by (simp add: list_all_iff)
  from g'(1) c show "comparable r'" by (simp add: list_all_iff)
qed

lemma fadd_commute: "fadd f g = fadd g f"
  by (cases f; cases g) (simp_all add: add.commute)

lemma fadd_zero: "is_double f \<Longrightarrow> fadd (Finite 0) f = f"
  by (cases f) simp_all

lemma py_add_zero_double: "double_val x \<Longrightarrow> py_add (PInt 0) x = Inr x"
proof (cases x)
  case (PFloat f)
  assume "double_val x"
  with PFloat have "is_double f" by simp
  moreover have "float_of_int 0 = Inr 0"
    using float_of_int_small[of 0] by simp
  ultimately show ?thesis
    by (simp add: PFloat fadd_zero)
qed simp_all

lemma two_mset:
  assumes "mset [x, y] = mset ys"
  shows "ys = [x, y] \<or> ys = [y, x]"
proof -
  from assms have "length ys = 2"
    using mset_eq_length[of "[x, y]" ys] by simp
  then obtain a b where ys: "ys = [a, b]"
    by (cases ys; cases "tl ys") auto
  with assms show ?thesis
    by (auto simp: add_eq_conv_ex)
qed

lemma py_sum_two_mset:
  assumes "list_all double_val xs" and "length xs \<le> 2" and "mset xs = mset ys"
  shows "py_sum xs = py_sum ys"
proof -
  consider "xs = []" | x where "xs = [x]" | x y where "xs = [x, y]"
    using assms(2) by (cases xs; cases "tl xs"; cases "tl (tl xs)") auto
  then show ?thesis
  proof cases
    case 1
    with assms(3) show ?thesis by simp
  next
    case 2
    with assms(3) show ?thesis by simp
  next
    case 3
    with assms(1) obtain f g where x: "x = PFloat f" and y: "y = PFloat g"
      by (cases x; cases y) auto
    from 3 assms(1) have d: "double_val x" "double_val y" by simp_all
    from assms(3) 3 have "ys = [x, y] \<or> ys = [y, x]"
      using two_mset[of x y ys] by simp
    then show ?thesis
    proof
      assume "ys = [x, y]"
      with 3 show ?thesis by simp
    next
      assume ys: "ys = [y, x]"
      have "py_sum xs = Inr (PFloat (fadd f g))"
        using d(1) by (simp add: 3 py_sum_def py_add_zero_double) (simp add: x y)
      moreover have "py_sum ys = Inr (PFloat (fadd g f))"
        using d(2) by (simp add: ys py_sum_def py_add_zero_double) (simp add: x y)
      ultimately show ?thesis by (simp add: fadd_commute)
    qed
  qed
qed

lemma py_mean_two_mset:
  assumes "list_all double_val xs" and "length xs \<le> 2" and "mset xs = mset ys"
  shows "py_mean xs = py_mean ys"
  unfolding py_mean_def py_sum_two_mset[OF assms] mset_eq_length[OF assms(3)] ..

lemma mset_map_obs:
  "mset os1 = mset os2 \<Longrightarrow> mset (map f os1) = mset (map f os2)"
  by (metis mset_map)


section \<open>The example collectors evaluated\<close>

lemma two_exchanges_pulse: "get_market_pulse two_exchanges now 50 = Inr [btc_bucket]"
  by (simp add: two_exchanges_def btc_bucket_def btc_observations_def eval_defs)

lemma one_failing_pulse:
  "get_market_pulse one_failing now 50 = Inr [single_bucket ''B'' ''BTC/USDT'' 50010 300 3]"
  by (simp add: one_failing_def single_bucket_def eval_defs)

lemma five_pairs_pulse:
  "get_market_pulse five_pairs ''t'' 50 =
     Inr [single_bucket ''A'' ''ETH/USDT'' 3000 500 2,
          single_bucket ''A'' ''BTC/USDT'' 50000 500 1,
          single_bucket ''A'' ''XRP/USDT'' 1 200 (- 4)]"
  by (simp add: five_pairs_def single_bucket_def eval_defs)

lemma great_first_pulse:
  "get_market_pulse great_first ''t'' 50 =
     Inr [\<lparr>agg_symbol = PStr ''BTC/USDT'',
           agg_exchanges = [float_obs ''A'' 1 9007199254740992 1, float_obs ''B'' 1 1 1,
                            float_obs ''C'' 1 1 1],
           avg_price = PFloat (Finite 1), total_volume_24h = PFloat (Finite 9007199254740992),
           avg_change_24h = PFloat (Finite 1), max_change_24h = PFloat (Finite 1)\<rparr>]"
  by (simp add: great_first_def eval_defs round_double_exact[of 9007199254740992 1 53]
      round_double_tie_2_53[simplified])

lemma great_last_pulse:
  "get_market_pulse great_last ''t'' 50 =
     Inr [\<lparr>agg_symbol = PStr ''BTC/USDT'',
           agg_exchanges = [float_obs ''C'' 1 1 1, float_obs ''B'' 1 1 1,
                            float_obs ''A'' 1 9007199254740992 1],
           avg_price = PFloat (Finite 1), total_volume_24h = PFloat (Finite 9007199254740994),
           avg_change_24h = PFloat (Finite 1), max_change_24h = PFloat (Finite 1)\<rparr>]"
  by (simp add: great_last_def eval_defs round_double_2_53_plus_2[simplified])

lemma tied_xy_pulse:
  "get_market_pulse tied_xy ''t'' 1 = Inr [single_bucket ''A'' ''X/USDT'' 1 500 1]"
  by (simp add: tied_xy_def single_bucket_def eval_defs)

lemma tied_yx_pulse:
  "get_market_pulse tied_yx ''t'' 1 = Inr [single_bucket ''B'' ''Y/USDT'' 1 500 1]"
  by (simp add: tied_yx_def single_bucket_def eval_defs)

lemma none_price_pulse: "get_market_pulse none_price ''t'' 50 = Inl TypeError"
  by (simp add: none_price_def none_price_exchange_def eval_defs)





section \<open>The claims\<close>




text \<open>
  C2. Two mappings from exchanges to tickers that hold the same observations, in whatever
  order, and whose aggregations both return, have the same symbols, and the two buckets
  of a symbol hold the same observations and have maximal changes of equal value when
  the changes are numbers other than NaN. Their total volumes are equal when the volumes
  are \<^verbatim>\<open>int\<close>s, and when they are at most two doubles; the same holds of the average
  prices and of the average changes. If every ticker has floats as price, volume and
  change, and there are fewer than \<open>2\<^sup>5\<^sup>3\<close> tickers, both aggregations return.
\<close>

theorem aggregation_under_reordering:
  assumes "mset (observations d1) = mset (observations d2)"
  shows "(list_all (\<lambda>p. float_ticker (snd p)) (observations d1) \<longrightarrow>
          length (observations d1) < 2 ^ 53 \<longrightarrow>
            (\<exists>m. aggregate d1 = Inr m) \<and> (\<exists>m. aggregate d2 = Inr m)) \<and>
         (aggregate d1 = Inr m1 \<longrightarrow> aggregate d2 = Inr m2 \<longrightarrow>
            fst ` set m1 = fst ` set m2 \<and>
            ((s, a1) \<in> set m1 \<longrightarrow> (s, a2) \<in> set m2 \<longrightarrow>
               mset (agg_exchanges a1) = mset (agg_exchanges a2) \<and>
               (list_all comparable (map obs_change_24h (agg_exchanges a1)) \<longrightarrow>
                  py_gt (max_change_24h a1) (max_change_24h a2) = Inr False \<and>
                  py_gt (max_change_24h a2) (max_change_24h a1) = Inr False) \<and>
               (list_all is_int (map obs_volume_24h (agg_exchanges a1)) \<or>
                list_all double_val (map obs_volume_24h (agg_exchanges a1)) \<and>
                length (agg_exchanges a1) \<le> 2 \<longrightarrow>
                  total_volume_24h a1 = total_volume_24h a2) \<and>
               (list_all is_int (map obs_price (agg_exchanges a1)) \<or>
                list_all double_val (map obs_price (agg_exchanges a1)) \<and>
                length (agg_exchanges a1) \<le> 2 \<longrightarrow>
                  avg_price a1 = avg_price a2) \<and>
               (list_all is_int (map obs_change_24h (agg_exchanges a1)) \<or>
                list_all double_val (map obs_change_24h (agg_exchanges a1)) \<and>
                length (agg_exchanges a1) \<le> 2 \<longrightarrow>
                  avg_change_24h a1 = avg_change_24h a2)))"
proof (intro conjI impI)
  assume f: "list_all (\<lambda>p. float_ticker (snd p)) (observations d1)"
    and l: "length (observations d1) < 2 ^ 53"
  from f have f2: "list_all (\<lambda>p. float_ticker (snd p)) (observations d2)"
    unfolding list_all_mset[OF assms, of "\<lambda>p. float_ticker (snd p)"] .
  from l have l2: "length (observations d2) < 2 ^ 53"
    unfolding mset_eq_length[OF assms] .
  from f l show "\<exists>m. aggregate d1 = Inr m" by (rule aggregate_floats)
  from f2 l2 show "\<exists>m. aggregate d2 = Inr m" by (rule aggregate_floats)
next
  assume m1: "aggregate d1 = Inr m1" and m2: "aggregate d2 = Inr m2"
  from assms have "set (observations d1) = set (observations d2)"
    by (rule mset_eq_setD)
  then show "fst ` set m1 = fst ` set m2"
    by (simp only: aggregate_keys(2)[OF m1] aggregate_keys(2)[OF m2])
next
  assume m1: "aggregate d1 = Inr m1" and m2: "aggregate d2 = Inr m2"
    and a1: "(s, a1) \<in> set m1" and a2: "(s, a2) \<in> set m2"
  let ?o1 = "bucket_obs s (observations d1)" and ?o2 = "bucket_obs s (observations d2)"
  have ms: "mset ?o1 = mset ?o2"
    using assms by (rule mset_bucket_obs)
  note g1 = aggregate_bucket(1)[OF m1 a1] and g2 = aggregate_bucket(1)[OF m2 a2]
  from g1 have e1: "agg_exchanges a1 = ?o1" by (simp add: aggregates_def)
  from g2 have e2: "agg_exchanges a2 = ?o2" by (simp add: aggregates_def)
  have len: "length ?o1 = length ?o2" using ms by (rule mset_eq_length)
  show "mset (agg_exchanges a1) = mset (agg_exchanges a2)"
    unfolding e1 e2 by (rule ms)
  {
    assume c: "list_all comparable (map obs_change_24h (agg_exchanges a1))"
    from g1 g2 have mx: "py_max (map obs_change_24h ?o1) = Inr (max_change_24h a1)"
      "py_max (map obs_change_24h ?o2) = Inr (max_change_24h a2)"
      by (simp_all add: aggregates_def)
    note r = py_max_mset[OF c[unfolded e1] mset_map_obs[OF ms] mx]
    from r show "py_gt (max_change_24h a1) (max_change_24h a2) = Inr False"
      by (simp add: py_gt_False_iff)
    from r show "py_gt (max_change_24h a2) (max_change_24h a1) = Inr False"
      by (simp add: py_gt_False_iff)
  }
  {
    assume h: "list_all is_int (map obs_volume_24h (agg_exchanges a1)) \<or>
        list_all double_val (map obs_volume_24h (agg_exchanges a1)) \<and>
        length (agg_exchanges a1) \<le> 2"
    from g1 g2 have t: "py_sum (map obs_volume_24h ?o1) = Inr (total_volume_24h a1)"
      "py_sum (map obs_volume_24h ?o2) = Inr (total_volume_24h a2)"
      by (simp_all add: aggregates_def)
    from h have "py_sum (map obs_volume_24h ?o1) = py_sum (map obs_volume_24h ?o2)"
      unfolding e1
      using py_sum_ints_mset[OF _ mset_map_obs[OF ms, of obs_volume_24h]]
        py_sum_two_mset[OF _ _ mset_map_obs[OF ms, of obs_volume_24h]]
      by auto
    with t show "total_volume_24h a1 = total_volume_24h a2" by simp
  }
  {
    assume h: "list_all is_int (map obs_price (agg_exchanges a1)) \<or>
        list_all double_val (map obs_price (agg_exchanges a1)) \<and>
        length (agg_exchanges a1) \<le> 2"
    from g1 g2 have t: "py_mean (map obs_price ?o1) = Inr (avg_price a1)"
      "py_mean (map obs_price ?o2) = Inr (avg_price a2)"
      by (simp_all add: aggregates_def)
    from h have "py_mean (map obs_price ?o1) = py_mean (map obs_price ?o2)"
      unfolding e1
      using py_mean_ints_mset[OF _ mset_map_obs[OF ms, of obs_price]]
        py_mean_two_mset[OF _ _ mset_map_obs[OF ms, of obs_price]]
      by auto
    with t show "avg_price a1 = avg_price a2" by simp
  }
  {
    assume h: "list_all is_int (map obs_change_24h (agg_exchanges a1)) \<or>
        list_all double_val (map obs_change_24h (agg_exchanges a1)) \<and>
        length (agg_exchanges a1) \<le> 2"
    from g1 g2 have t: "py_mean (map obs_change_24h ?o1) = Inr (avg_change_24h a1)"
      "py_mean (map obs_change_24h ?o2) = Inr (avg_change_24h a2)"
      by (simp_all add: aggregates_def)
    from h have "py_mean (map obs_change_24h ?o1) = py_mean (map obs_change_24h ?o2)"
      unfolding e1
      using py_mean_ints_mset[OF _ mset_map_obs[OF ms, of obs_change_24h]]
        py_mean_two_mset[OF _ _ mset_map_obs[OF ms, of obs_change_24h]]
      by auto
    with t show "avg_change_24h a1 = avg_change_24h a2" by simp
  }
qed

theorem aggregation_under_reordering_witness:
  "mset (observations (collect_all_exchanges two_exchanges ''t'' None 50)) =
     mset (observations (collect_all_exchanges two_exchanges_swapped ''t'' None 50)) \<and>
   observations (collect_all_exchanges two_exchanges ''t'' None 50) \<noteq>
     observations (collect_all_exchanges two_exchanges_swapped ''t'' None 50) \<and>
   aggregate (collect_all_exchanges two_exchanges ''t'' None 50) =
     Inr [(PStr ''BTC/USDT'', btc_bucket)] \<and>
   aggregate (collect_all_exchanges two_exchanges_swapped ''t'' None 50) =
     Inr [(PStr ''BTC/USDT'', btc_bucket\<lparr>agg_exchanges := rev btc_observations\<rparr>)] \<and>
   list_all double_val (map obs_volume_24h (agg_exchanges btc_bucket)) \<and>
   list_all double_val (map obs_price (agg_exchanges btc_bucket)) \<and>
   list_all comparable (map obs_change_24h (agg_exchanges btc_bucket)) \<and>
   length (agg_exchanges btc_bucket) \<le> 2 \<and>
   mset (agg_exchanges btc_bucket) =
     mset (agg_exchanges (btc_bucket\<lparr>agg_exchanges := rev btc_observations\<rparr>)) \<and>
   total_volume_24h btc_bucket =
     total_volume_24h (btc_bucket\<lparr>agg_exchanges := rev btc_observations\<rparr>) \<and>
   avg_price btc_bucket = avg_price (btc_bucket\<lparr>agg_exchanges := rev btc_observations\<rparr>) \<and>
   py_gt (max_change_24h btc_bucket)
     (max_change_24h (btc_bucket\<lparr>agg_exchanges := rev btc_observations\<rparr>)) = Inr False"
proof -
  let ?d1 = "collect_all_exchanges two_exchanges ''t'' None 50"
  let ?d2 = "collect_all_exchanges two_exchanges_swapped ''t'' None 50"
  let ?b2 = "btc_bucket\<lparr>agg_exchanges := rev btc_observations\<rparr>"
  let ?m1 = "[(PStr ''BTC/USDT'', btc_bucket)]"
  let ?m2 = "[(PStr ''BTC/USDT'', ?b2)]"
  have o1: "observations ?d1 =
      [(''A'', top_ticker ''t'' (raw ''BTC/USDT'' 50000 100 1)),
       (''B'', top_ticker ''t'' (raw ''BTC/USDT'' 50010 300 3))]"
    by (simp add: two_exchanges_def top_ticker_def eval_defs)
  have o2: "observations ?d2 =
      [(''B'', top_ticker ''t'' (raw ''BTC/USDT'' 50010 300 3)),
       (''A'', top_ticker ''t'' (raw ''BTC/USDT'' 50000 100 1))]"
    by (simp add: two_exchanges_swapped_def top_ticker_def eval_defs)
  have h: "mset (observations ?d1) = mset (observations ?d2)"
    unfolding o1 o2 by (simp add: add_mset_commute)
  have n: "observations ?d1 \<noteq> observations ?d2"
    unfolding o1 o2 by simp
  have g1: "aggregate ?d1 = Inr ?m1"
    by (simp add: two_exchanges_def btc_bucket_def btc_observations_def eval_defs)
  have g2: "aggregate ?d2 = Inr ?m2"
    by (simp add: two_exchanges_swapped_def btc_bucket_def btc_observations_def eval_defs)
  have i1: "(PStr ''BTC/USDT'', btc_bucket) \<in> set ?m1"
    and i2: "(PStr ''BTC/USDT'', ?b2) \<in> set ?m2"
    by simp_all
  have dv: "list_all double_val (map obs_volume_24h (agg_exchanges btc_bucket))"
    and dp: "list_all double_val (map obs_price (agg_exchanges btc_bucket))"
    and cc: "list_all comparable (map obs_change_24h (agg_exchanges btc_bucket))"
    and le: "length (agg_exchanges btc_bucket) \<le> 2"
    by (simp_all add: btc_bucket_def btc_observations_def float_obs_def round_double_int)
  note T = aggregation_under_reordering[OF h, of ?m1 ?m2 "PStr ''BTC/USDT''" btc_bucket ?b2]
  from T g1 g2 i1 i2
  have ms: "mset (agg_exchanges btc_bucket) = mset (agg_exchanges ?b2)"
    by blast
  from T g1 g2 i1 i2 dv le
  have tv: "total_volume_24h btc_bucket = total_volume_24h ?b2"
    by blast
  from T g1 g2 i1 i2 dp le
  have ap: "avg_price btc_bucket = avg_price ?b2"
    by blast
  from T g1 g2 i1 i2 cc
  have mx: "py_gt (max_change_24h btc_bucket) (max_change_24h ?b2) = Inr False"
    by blast
  show ?thesis
    by (intro conjI; (fact h n g1 g2 dv dp cc le ms tv ap mx))
qed

text \<open>
  The order of the observations does show in the result. With the volumes \<open>2\<^sup>5\<^sup>3\<close>, 1 and
  1 the total is \<open>2\<^sup>5\<^sup>3\<close> when the great volume is collected first and \<open>2\<^sup>5\<^sup>3 + 2\<close> when
  it is collected last. With two symbols of equal volume and the limit 1, the pulse holds
  the symbol that was collected first.
\<close>

theorem aggregation_depends_on_order:
  "mset (observations (collect_all_exchanges great_first ''t'' None 50)) =
     mset (observations (collect_all_exchanges great_last ''t'' None 50)) \<and>
   get_market_pulse great_first ''t'' 50 =
     Inr [\<lparr>agg_symbol = PStr ''BTC/USDT'',
           agg_exchanges = [float_obs ''A'' 1 9007199254740992 1, float_obs ''B'' 1 1 1,
                            float_obs ''C'' 1 1 1],
           avg_price = PFloat (Finite 1), total_volume_24h = PFloat (Finite 9007199254740992),
           avg_change_24h = PFloat (Finite 1), max_change_24h = PFloat (Finite 1)\<rparr>] \<and>
   get_market_pulse great_last ''t'' 50 =
     Inr [\<lparr>agg_symbol = PStr ''BTC/USDT'',
           agg_exchanges = [float_obs ''C'' 1 1 1, float_obs ''B'' 1 1 1,
                            float_obs ''A'' 1 9007199254740992 1],
           avg_price = PFloat (Finite 1), total_volume_24h = PFloat (Finite 9007199254740994),
           avg_change_24h = PFloat (Finite 1), max_change_24h = PFloat (Finite 1)\<rparr>] \<and>
   PFloat (Finite 9007199254740992) \<noteq> PFloat (Finite 9007199254740994) \<and>
   mset (observations (collect_all_exchanges tied_xy ''t'' None 1)) =
     mset (observations (collect_all_exchanges tied_yx ''t'' None 1)) \<and>
   get_market_pulse tied_xy ''t'' 1 = Inr [single_bucket ''A'' ''X/USDT'' 1 500 1] \<and>
   get_market_pulse tied_yx ''t'' 1 = Inr [single_bucket ''B'' ''Y/USDT'' 1 500 1]"
proof -
  have o1: "observations (collect_all_exchanges great_first ''t'' None 50) =
      [(''A'', top_ticker ''t'' (raw ''BTC/USDT'' 1 9007199254740992 1)),
       (''B'', top_ticker ''t'' (raw ''BTC/USDT'' 1 1 1)),
       (''C'', top_ticker ''t'' (raw ''BTC/USDT'' 1 1 1))]"
    by (simp add: great_first_def top_ticker_def eval_defs)
  have o2: "observations (collect_all_exchanges great_last ''t'' None 50) =
      [(''C'', top_ticker ''t'' (raw ''BTC/USDT'' 1 1 1)),
       (''B'', top_ticker ''t'' (raw ''BTC/USDT'' 1 1 1)),
       (''A'', top_ticker ''t'' (raw ''BTC/USDT'' 1 9007199254740992 1))]"
    by (simp add: great_last_def top_ticker_def eval_defs)
  have g: "mset (observations (collect_all_exchanges great_first ''t'' None 50)) =
     mset (observations (collect_all_exchanges great_last ''t'' None 50))"
    unfolding o1 o2 by (simp add: add_mset_commute)
  have x1: "observations (collect_all_exchanges tied_xy ''t'' None 1) =
      [(''A'', top_ticker ''t'' (raw ''X/USDT'' 1 500 1)),
       (''B'', top_ticker ''t'' (raw ''Y/USDT'' 1 500 1))]"
    by (simp add: tied_xy_def top_ticker_def eval_defs)
  have x2: "observations (collect_all_exchanges tied_yx ''t'' None 1) =
      [(''B'', top_ticker ''t'' (raw ''Y/USDT'' 1 500 1)),
       (''A'', top_ticker ''t'' (raw ''X/USDT'' 1 500 1))]"
    by (simp add: tied_yx_def top_ticker_def eval_defs)
  have t: "mset (observations (collect_all_exchanges tied_xy ''t'' None 1)) =
     mset (observations (collect_all_exchanges tied_yx ''t'' None 1))"
    unfolding x1 x2 by (simp add: add_mset_commute)
  have d: "PFloat (Finite 9007199254740992) \<noteq> PFloat (Finite 9007199254740994)"
    by simp
  show ?thesis
    by (intro conjI; (fact g great_first_pulse great_last_pulse d t tied_xy_pulse tied_yx_pulse))
qed

text \<open>
  C3. For a limit \<open>N > 0\<close> the pulse is in descending order of total volume, its length
  is the smaller of \<open>N\<close> and the number of distinct symbols collected, and no symbol
  occurs twice, two symbols being the same when they are the same key of a dictionary.
  The total volumes are numbers other than NaN, so that their order is the order of
  their values: no entry has a total volume greater than that of an entry before it.
  Entries of equal volume keep the order of their buckets in the symbol map, the order
  in which their symbols were first seen: for every volume the entries of the pulse
  with that volume are an initial piece of the buckets with that volume.
\<close>

theorem pulse_sorted_by_volume:
  assumes "0 < limit" and "get_market_pulse c now limit = Inr pulse"
  shows "sorted_wrt (\<lambda>a b. volume_key b \<le> volume_key a) pulse \<and>
         sorted_wrt (\<lambda>a b. py_gt (total_volume_24h b) (total_volume_24h a) = Inr False)
           pulse \<and>
         list_all (\<lambda>a. comparable (total_volume_24h a)) pulse \<and>
         length pulse =
           min (nat limit)
             (card (dict_key ` symbol ` snd ` set (observations (collect_all_exchanges c now None limit)))) \<and>
         distinct (map agg_symbol pulse) \<and>
         distinct (map (dict_key \<circ> agg_symbol) pulse) \<and>
         (\<exists>m. aggregate (collect_all_exchanges c now None limit) = Inr m \<and>
              set pulse \<subseteq> snd ` set m \<and>
              (\<forall>v. \<exists>k. filter (\<lambda>a. volume_key a = v) pulse =
                         take k (filter (\<lambda>a. volume_key a = v) (map snd m))))"
proof -
  let ?d = "collect_all_exchanges c now None limit"
  from assms(2) obtain m where m: "aggregate ?d = Inr m"
    and p: "pulse = rank_pulse limit m"
    by (rule pulse_from_aggregate)
  have s: "sorted_wrt (\<lambda>a b. volume_key b \<le> volume_key a) pulse"
    unfolding p rank_pulse_def
    by (intro sorted_wrt_py_take sorted_desc_sort_desc)
  have cm: "comparable (total_volume_24h a)" if "a \<in> set pulse" for a
    using assms(2) that by (rule pulse_entry_comparable)
  then have c: "list_all (\<lambda>a. comparable (total_volume_24h a)) pulse"
    by (simp add: list_all_iff)
  have "py_gt (total_volume_24h b) (total_volume_24h a) = Inr False"
    if "a \<in> set pulse" "b \<in> set pulse" "volume_key b \<le> volume_key a" for a b
    using that cm[of a] cm[of b] by (simp add: py_gt_False_iff volume_key_def)
  with s have g: "sorted_wrt (\<lambda>a b. py_gt (total_volume_24h b) (total_volume_24h a) = Inr False)
      pulse"
    by (rule_tac sorted_wrt_mono_rel[of pulse "\<lambda>a b. volume_key b \<le> volume_key a"])
  have dist: "distinct (map fst m)" using m by (rule aggregate_keys(1))
  have "length m = card (fst ` set m)"
    using dist by (metis distinct_card length_map set_map)
  also have "\<dots> = card (dict_key ` symbol ` snd ` set (observations ?d))"
    using aggregate_keys(2)[OF m] by simp
  finally have len: "length m = card (dict_key ` symbol ` snd ` set (observations ?d))" .
  have l: "length pulse = min (nat limit) (card (dict_key ` symbol ` snd ` set (observations ?d)))"
    using assms(1) len unfolding p rank_pulse_def
    by (simp add: length_py_take length_sort_desc)
  have "distinct (map (dict_key \<circ> agg_symbol) (map snd m))"
    using dist by (simp only: aggregate_symbols[OF m])
  then have "distinct (map (dict_key \<circ> agg_symbol) (sort_desc volume_key (map snd m)))"
    by (rule distinct_map_sort_desc)
  then have dk: "distinct (map (dict_key \<circ> agg_symbol) pulse)"
    unfolding p rank_pulse_def map_py_take by (rule distinct_py_take)
  then have ds: "distinct (map agg_symbol pulse)"
    by (rule distinct_map_comp)
  have sub: "set pulse \<subseteq> snd ` set m"
    unfolding p by (rule set_rank_pulse)
  have ties: "\<exists>k. filter (\<lambda>a. volume_key a = v) pulse =
                         take k (filter (\<lambda>a. volume_key a = v) (map snd m))" for v
    using filter_py_take_prefix[of "\<lambda>a. volume_key a = v" limit
        "sort_desc volume_key (map snd m)"]
    unfolding p rank_pulse_def by (simp only: sort_desc_stable)
  from s g c l ds dk m sub ties show ?thesis by blast
qed

theorem pulse_sorted_by_volume_witness:
  "(0::int) < 50 \<and>
   get_market_pulse five_pairs ''t'' 50 =
     Inr [single_bucket ''A'' ''ETH/USDT'' 3000 500 2,
          single_bucket ''A'' ''BTC/USDT'' 50000 500 1,
          single_bucket ''A'' ''XRP/USDT'' 1 200 (- 4)] \<and>
   sorted_wrt (\<lambda>a b. volume_key b \<le> volume_key a)
     [single_bucket ''A'' ''ETH/USDT'' 3000 500 2,
      single_bucket ''A'' ''BTC/USDT'' 50000 500 1,
      single_bucket ''A'' ''XRP/USDT'' 1 200 (- 4)] \<and>
   sorted_wrt (\<lambda>a b. py_gt (total_volume_24h b) (total_volume_24h a) = Inr False)
     [single_bucket ''A'' ''ETH/USDT'' 3000 500 2,
      single_bucket ''A'' ''BTC/USDT'' 50000 500 1,
      single_bucket ''A'' ''XRP/USDT'' 1 200 (- 4)] \<and>
   3 = min (nat 50)
         (card (dict_key ` symbol ` snd ` set (observations (collect_all_exchanges five_pairs ''t'' None 50))))"
proof -
  let ?pulse = "[single_bucket ''A'' ''ETH/USDT'' 3000 500 2,
      single_bucket ''A'' ''BTC/USDT'' 50000 500 1,
      single_bucket ''A'' ''XRP/USDT'' 1 200 (- 4)]"
  have l0: "(0::int) < 50" by simp
  note T = pulse_sorted_by_volume[OF l0 five_pairs_pulse]
  from T have s: "sorted_wrt (\<lambda>a b. volume_key b \<le> volume_key a) ?pulse"
    by (rule conjunct1)
  from T have g: "sorted_wrt (\<lambda>a b. py_gt (total_volume_24h b) (total_volume_24h a) = Inr False)
      ?pulse"
    by (rule conjunct1[OF conjunct2])
  from T have "length ?pulse = min (nat 50)
         (card (dict_key ` symbol ` snd ` set (observations (collect_all_exchanges five_pairs ''t'' None 50))))"
    by (rule conjunct1[OF conjunct2[OF conjunct2[OF conjunct2]]])
  then have l: "3 = min (nat 50)
         (card (dict_key ` symbol ` snd ` set (observations (collect_all_exchanges five_pairs ''t'' None 50))))"
    by simp
  show ?thesis
    by (intro conjI; (fact l0 five_pairs_pulse s g l))
qed

text \<open>
  Two symbols of equal volume stay in the order in which they were collected, here
  ETH/USDT before BTC/USDT, which is not the order of their names.
\<close>

theorem equal_volumes_not_in_symbol_order:
  "get_market_pulse five_pairs ''t'' 50 =
     Inr [single_bucket ''A'' ''ETH/USDT'' 3000 500 2,
          single_bucket ''A'' ''BTC/USDT'' 50000 500 1,
          single_bucket ''A'' ''XRP/USDT'' 1 200 (- 4)] \<and>
   total_volume_24h (single_bucket ''A'' ''ETH/USDT'' 3000 500 2) =
     total_volume_24h (single_bucket ''A'' ''BTC/USDT'' 50000 500 1) \<and>
   agg_symbol (single_bucket ''A'' ''ETH/USDT'' 3000 500 2) = PStr ''ETH/USDT'' \<and>
   agg_symbol (single_bucket ''A'' ''BTC/USDT'' 50000 500 1) = PStr ''BTC/USDT'' \<and>
   ''BTC/USDT'' < ''ETH/USDT''"
  by (simp add: five_pairs_pulse single_bucket_def)

text \<open>
  C4. If every exchange adapter fails during a collection cycle, the cycle returns no
  error: the mapping of \<^verbatim>\<open>collect_all_exchanges\<close> holds no ticker, every initialised
  exchange being bound to the empty list, and the pulse list is empty.
\<close>

theorem all_adapters_fail_no_tickers:
  assumes "\<forall>n ex. exchanges c n = Some ex \<longrightarrow>
             isl (fetch_tickers ex) \<and> (\<forall>symb. isl (fetch_ticker ex symb))"
  shows "fst ` set (collect_all_exchanges c now symbols limit) =
           set (exchange_names c) \<inter> dom (exchanges c) \<and>
         (\<forall>(n, ts) \<in> set (collect_all_exchanges c now symbols limit). ts = []) \<and>
         get_market_pulse c now limit = Inr []"
proof -
  have "ts = []" if "(n, ts) \<in> set (collect_all_exchanges c now symbols limit)" for n ts
    using collect_values(3)[OF that] by (simp add: all_fail_tickers[OF assms])
  then have "\<forall>(n, ts) \<in> set (collect_all_exchanges c now symbols limit). ts = []"
    by blast
  moreover have "get_market_pulse c now limit = Inr []"
    using all_fail_tickers[OF assms, of now None limit]
    by (intro pulse_no_tickers) (simp add: exchange_tickers_def)
  ultimately show ?thesis
    using collect_keys by blast
qed

theorem all_adapters_fail_no_tickers_witness:
  "exchanges all_failing ''A'' = Some failing_exchange \<and>
   exchanges all_failing ''B'' = Some failing_exchange \<and>
   isl (fetch_tickers failing_exchange) \<and>
   isl (fetch_ticker failing_exchange ''BTC/USDT'') \<and>
   fst ` set (collect_all_exchanges all_failing ''t'' None 50) = {''A'', ''B''} \<and>
   list_all (\<lambda>(n, ts). ts = []) (collect_all_exchanges all_failing ''t'' None 50) \<and>
   get_market_pulse all_failing ''t'' 50 = Inr []"
proof -
  have h: "\<forall>n ex. exchanges all_failing n = Some ex \<longrightarrow>
      isl (fetch_tickers ex) \<and> (\<forall>symb. isl (fetch_ticker ex symb))"
    by (auto simp: all_failing_def MarketCollector_def failing_exchange_def restrict_map_def
          split: if_splits)
  have k: "set (exchange_names all_failing) \<inter> dom (exchanges all_failing) = {''A'', ''B''}"
    by (auto simp: all_failing_def MarketCollector_def)
  have e: "exchanges all_failing ''A'' = Some failing_exchange"
    "exchanges all_failing ''B'' = Some failing_exchange"
    "isl (fetch_tickers failing_exchange)" "isl (fetch_ticker failing_exchange ''BTC/USDT'')"
    by (simp_all add: all_failing_def MarketCollector_def failing_exchange_def)
  from all_adapters_fail_no_tickers[OF h, of "''t''" None 50] k e show ?thesis
    by (simp add: list_all_iff)
qed

text \<open>
  The mapping itself is not empty when every adapter fails: each initialised exchange is
  a key of it.
\<close>

theorem all_adapters_fail_mapping_not_empty:
  "collect_all_exchanges all_failing ''t'' (Some [''BTC/USDT'']) 50 = [(''A'', []), (''B'', [])] \<and>
   collect_all_exchanges all_failing ''t'' None 50 = [(''A'', []), (''B'', [])] \<and>
   collect_all_exchanges all_failing ''t'' None 50 \<noteq> []"
  by (simp add: all_failing_def eval_defs)

text \<open>
  C5. The failure of one exchange does not reduce the data of the others: what the
  mapping holds for an exchange \<open>b\<close> is the same for every behaviour of the other
  exchanges; an exchange \<open>a\<close> whose fetch fails contributes no ticker, be it the fetch
  of the top pairs or the fetch of every requested symbol; and when A fails while B
  reports BTC/USDT with volume 300 the pulse holds BTC/USDT with the one observation of B
  and total volume 300.
\<close>

theorem failed_exchange_isolated:
  assumes "exchange_names c' = exchange_names c" and "exchanges c' b = exchanges c b"
    and "a \<in> set (exchange_names c)" and "exchanges c a = Some ex"
  shows "map_of (collect_all_exchanges c' now symbols limit) b =
           map_of (collect_all_exchanges c now symbols limit) b \<and>
         (isl (fetch_tickers ex) \<longrightarrow>
            map_of (collect_all_exchanges c now None limit) a = Some []) \<and>
         ((\<forall>symb \<in> set (s # ss). isl (fetch_ticker ex symb)) \<longrightarrow>
            map_of (collect_all_exchanges c now (Some (s # ss)) limit) a = Some []) \<and>
         get_market_pulse one_failing now 50 = Inr [single_bucket ''B'' ''BTC/USDT'' 50010 300 3] \<and>
         length (agg_exchanges (single_bucket ''B'' ''BTC/USDT'' 50010 300 3)) = 1 \<and>
         total_volume_24h (single_bucket ''B'' ''BTC/USDT'' 50010 300 3) = PFloat (Finite 300)"
proof (intro conjI impI)
  show "map_of (collect_all_exchanges c' now symbols limit) b =
           map_of (collect_all_exchanges c now symbols limit) b"
    using assms(1,2) exchange_tickers_cong[OF assms(2), of now symbols limit]
    by (simp add: map_of_collect domIff)
next
  assume "isl (fetch_tickers ex)"
  then have "get_top_pairs c now a limit = []"
    using assms(4) by (auto simp: get_top_pairs_def split: sum.splits)
  then show "map_of (collect_all_exchanges c now None limit) a = Some []"
    using assms(3,4) by (simp add: map_of_collect exchange_tickers_def domIff)
next
  assume f: "\<forall>symb \<in> set (s # ss). isl (fetch_ticker ex symb)"
  have "get_ticker c now a symb = None" if "symb \<in> set (s # ss)" for symb
  proof -
    from f that have "isl (fetch_ticker ex symb)" by blast
    then show ?thesis
      using assms(4) by (cases "fetch_ticker ex symb") (simp_all add: get_ticker_def)
  qed
  then have "exchange_tickers c now (Some (s # ss)) limit a = []"
    by (simp add: exchange_tickers_def)
  then show "map_of (collect_all_exchanges c now (Some (s # ss)) limit) a = Some []"
    using assms(3,4) by (simp add: map_of_collect domIff)
next
  show "get_market_pulse one_failing now 50 = Inr [single_bucket ''B'' ''BTC/USDT'' 50010 300 3]"
    by (rule one_failing_pulse)
next
  show "length (agg_exchanges (single_bucket ''B'' ''BTC/USDT'' 50010 300 3)) = 1"
    by (simp add: single_bucket_def)
next
  show "total_volume_24h (single_bucket ''B'' ''BTC/USDT'' 50010 300 3) = PFloat (Finite 300)"
    by (simp add: single_bucket_def)
qed

theorem failed_exchange_isolated_witness:
  "exchange_names two_exchanges = exchange_names one_failing \<and>
   exchanges two_exchanges ''B'' = exchanges one_failing ''B'' \<and>
   ''A'' \<in> set (exchange_names one_failing) \<and>
   exchanges one_failing ''A'' = Some failing_exchange \<and>
   isl (fetch_tickers failing_exchange) \<and>
   isl (fetch_ticker failing_exchange ''BTC/USDT'') \<and>
   map_of (collect_all_exchanges two_exchanges ''t'' None 50) ''B'' =
     map_of (collect_all_exchanges one_failing ''t'' None 50) ''B'' \<and>
   map_of (collect_all_exchanges one_failing ''t'' None 50) ''B'' =
     Some [top_ticker ''t'' (raw ''BTC/USDT'' 50010 300 3)] \<and>
   map_of (collect_all_exchanges one_failing ''t'' None 50) ''A'' = Some [] \<and>
   map_of (collect_all_exchanges one_failing ''t'' (Some [''BTC/USDT'']) 50) ''A'' = Some []"
proof -
  have h: "exchange_names two_exchanges = exchange_names one_failing"
    "exchanges two_exchanges ''B'' = exchanges one_failing ''B''"
    "''A'' \<in> set (exchange_names one_failing)"
    "exchanges one_failing ''A'' = Some failing_exchange"
    by (simp_all add: two_exchanges_def one_failing_def MarketCollector_def)
  have f: "isl (fetch_tickers failing_exchange)"
    "isl (fetch_ticker failing_exchange ''BTC/USDT'')"
    by (simp_all add: failing_exchange_def)
  have b: "map_of (collect_all_exchanges one_failing ''t'' None 50) ''B'' =
     Some [top_ticker ''t'' (raw ''BTC/USDT'' 50010 300 3)]"
    by (simp add: one_failing_def top_ticker_def eval_defs)
  from failed_exchange_isolated[OF h, of "''t''" None 50 "''BTC/USDT''" "[]"] h f b
  show ?thesis
    by simp
qed

text \<open>
  C6. Every symbol of the aggregated output has at least one contributing observation: a
  bucket of the symbol map lists the observations of its symbol and that list is not
  empty, so the averages divide by a positive length and \<^verbatim>\<open>max\<close> is never applied to
  an empty list: the second loop raises neither \<^verbatim>\<open>ValueError\<close> nor
  \<^verbatim>\<open>ZeroDivisionError\<close>.
\<close>

theorem no_bucket_without_observation:
  "(aggregate d = Inr m \<longrightarrow>
      (\<forall>(s, a) \<in> set m. agg_exchanges a \<noteq> [] \<and>
         agg_exchanges a = bucket_obs s (observations d) \<and>
         calculate_bucket a \<noteq> Inl ValueError \<and>
         calculate_bucket a \<noteq> Inl ZeroDivisionError)) \<and>
   (get_market_pulse c now limit = Inr pulse \<longrightarrow>
      (\<forall>a \<in> set pulse. agg_exchanges a \<noteq> [] \<and> 0 < length (agg_exchanges a) \<and>
         agg_exchanges a =
           bucket_obs (agg_symbol a) (observations (collect_all_exchanges c now None limit)))) \<and>
   aggregate d \<noteq> Inl ValueError \<and> aggregate d \<noteq> Inl ZeroDivisionError"
proof (intro conjI impI)
  assume m: "aggregate d = Inr m"
  show "\<forall>(s, a) \<in> set m. agg_exchanges a \<noteq> [] \<and>
         agg_exchanges a = bucket_obs s (observations d) \<and>
         calculate_bucket a \<noteq> Inl ValueError \<and>
         calculate_bucket a \<noteq> Inl ZeroDivisionError"
  proof (clarify, intro conjI)
    fix s a assume "(s, a) \<in> set m"
    from aggregate_bucket(1)[OF m this]
    show ne: "agg_exchanges a \<noteq> []" and "agg_exchanges a = bucket_obs s (observations d)"
      by (simp_all add: aggregates_def)
    show "calculate_bucket a \<noteq> Inl ValueError"
      using calculate_bucket_error[OF _ ne] by blast
    show "calculate_bucket a \<noteq> Inl ZeroDivisionError"
      using calculate_bucket_error[OF _ ne] by blast
  qed
next
  assume p: "get_market_pulse c now limit = Inr pulse"
  show "\<forall>a \<in> set pulse. agg_exchanges a \<noteq> [] \<and> 0 < length (agg_exchanges a) \<and>
         agg_exchanges a =
           bucket_obs (agg_symbol a) (observations (collect_all_exchanges c now None limit))"
  proof
    fix a assume "a \<in> set pulse"
    from pulse_bucket[OF p this]
    show "agg_exchanges a \<noteq> [] \<and> 0 < length (agg_exchanges a) \<and>
         agg_exchanges a =
           bucket_obs (agg_symbol a) (observations (collect_all_exchanges c now None limit))"
      by (simp add: aggregates_def)
  qed
next
  show "aggregate d \<noteq> Inl ValueError"
    using aggregate_error[of d ValueError] by auto
  show "aggregate d \<noteq> Inl ZeroDivisionError"
    using aggregate_error[of d ZeroDivisionError] by auto
qed

theorem no_bucket_without_observation_witness:
  "get_market_pulse two_exchanges ''t'' 50 = Inr [btc_bucket] \<and>
   list_all (\<lambda>a. agg_exchanges a \<noteq> [] \<and> 0 < length (agg_exchanges a)) [btc_bucket] \<and>
   length (agg_exchanges btc_bucket) = 2"
proof -
  have p: "get_market_pulse two_exchanges ''t'' 50 = Inr [btc_bucket]"
    by (rule two_exchanges_pulse)
  from no_bucket_without_observation[of "[]" "[]" two_exchanges "''t''" 50 "[btc_bucket]"] p
  have "\<forall>a \<in> set [btc_bucket]. agg_exchanges a \<noteq> [] \<and> 0 < length (agg_exchanges a) \<and>
         agg_exchanges a =
           bucket_obs (agg_symbol a) (observations (collect_all_exchanges two_exchanges ''t'' None 50))"
    by (rule_tac mp[OF conjunct1[OF conjunct2]])
  then have l: "list_all (\<lambda>a. agg_exchanges a \<noteq> [] \<and> 0 < length (agg_exchanges a)) [btc_bucket]"
    unfolding list_all_iff by blast
  have n: "length (agg_exchanges btc_bucket) = 2"
    by (simp add: btc_bucket_def btc_observations_def)
  show ?thesis
    by (intro conjI; (fact p l n))
qed

text \<open>
  C7. A ranking limit that is zero or negative is not rejected. With the limit 0 the
  pulse is the empty list; with a negative limit \<open>n\<close> the ranked list loses its last
  \<open>- n\<close> entries.
\<close>

theorem nonpositive_limit_returns:
  "get_market_pulse c now 0 = Inr [] \<and>
   (n < 0 \<longrightarrow> aggregate (collect_all_exchanges c now None n) = Inr m \<longrightarrow>
      get_market_pulse c now n =
        Inr (take (length m - nat (- n)) (sort_desc volume_key (map snd m))))"
proof -
  have "get_market_pulse c now 0 = Inr []"
    by (rule pulse_no_tickers) (rule get_top_pairs_0)
  then show ?thesis
    by (simp add: get_market_pulse_def rank_pulse_def py_take_def sort_desc_def)
qed

theorem nonpositive_limit_returns_witness:
  "(- 1 :: int) < 0 \<and>
   aggregate (collect_all_exchanges five_pairs ''t'' None (- 1)) =
     Inr [(PStr ''ETH/USDT'', single_bucket ''A'' ''ETH/USDT'' 3000 500 2),
          (PStr ''BTC/USDT'', single_bucket ''A'' ''BTC/USDT'' 50000 500 1)] \<and>
   get_market_pulse five_pairs ''t'' (- 1) =
     Inr [single_bucket ''A'' ''ETH/USDT'' 3000 500 2]"
proof -
  have h: "aggregate (collect_all_exchanges five_pairs ''t'' None (- 1)) =
     Inr [(PStr ''ETH/USDT'', single_bucket ''A'' ''ETH/USDT'' 3000 500 2),
          (PStr ''BTC/USDT'', single_bucket ''A'' ''BTC/USDT'' 50000 500 1)]"
    by (simp add: five_pairs_def single_bucket_def eval_defs)
  from nonpositive_limit_returns[of five_pairs "''t''" "- 1"] h show ?thesis
    by (simp add: sort_desc_def volume_key_def single_bucket_def)
qed

text \<open>The limit 0 yields a result, the empty list, and no error.\<close>

theorem zero_limit_is_not_an_error:
  "get_market_pulse two_exchanges ''t'' 0 = Inr [] \<and>
   \<not> isl (get_market_pulse two_exchanges ''t'' 0)"
  by (simp add: pulse_limit_zero)

text \<open>
  C8. In \<^verbatim>\<open>get_top_pairs\<close> the filters come before the ranking. Every returned ticker
  was built from an entry of \<^verbatim>\<open>fetch_tickers()\<close> whose symbol contains \<^verbatim>\<open>/USDT\<close> and
  whose quote volume is a number, not NaN, that is greater than zero; the returned list
  is in descending order of volume, no ticker having a volume greater than that of a
  ticker before it; for a limit that is not negative it has at most \<open>limit\<close> entries;
  and when the comprehension does not raise and every kept ticker has a symbol, the
  result is the list of all kept pairs, sorted by volume and then cut to the limit.
\<close>

theorem top_pairs_filtered_before_ranking:
  "(\<forall>r \<in> set (get_top_pairs c now n limit).
      \<exists>ex tickers k t v. exchanges c n = Some ex \<and> fetch_tickers ex = Inr tickers \<and>
        (k, t) \<in> set tickers \<and> str_contains ''/USDT'' k \<and>
        t ''quoteVolume'' = Some v \<and> is_number v \<and> comparable v \<and>
        py_gt v (PInt 0) = Inr True \<and> (0, 0) < num_key v \<and>
        r = top_ticker now t \<and> volume_24h r = v) \<and>
   sorted_wrt (\<lambda>a b. num_key (volume_24h b) \<le> num_key (volume_24h a))
     (get_top_pairs c now n limit) \<and>
   sorted_wrt (\<lambda>a b. py_gt (volume_24h b) (volume_24h a) = Inr False)
     (get_top_pairs c now n limit) \<and>
   (0 \<le> limit \<longrightarrow> length (get_top_pairs c now n limit) \<le> nat limit) \<and>
   (exchanges c n = Some ex' \<longrightarrow> fetch_tickers ex' = Inr tickers' \<longrightarrow>
    usdt_pairs tickers' = Inr ps \<longrightarrow> (\<forall>t \<in> set ps. t ''symbol'' \<noteq> None) \<longrightarrow>
      ps = map snd (filter kept_pair tickers') \<and>
      get_top_pairs c now n limit =
        map (top_ticker now) (py_take limit (sort_desc quote_volume ps)))"
proof (intro conjI)
  let ?res = "get_top_pairs c now n limit"
  let ?has = "\<lambda>t::raw_ticker. t ''symbol'' \<noteq> None"
  show "\<forall>r \<in> set ?res.
      \<exists>ex tickers k t v. exchanges c n = Some ex \<and> fetch_tickers ex = Inr tickers \<and>
        (k, t) \<in> set tickers \<and> str_contains ''/USDT'' k \<and>
        t ''quoteVolume'' = Some v \<and> is_number v \<and> comparable v \<and>
        py_gt v (PInt 0) = Inr True \<and> (0, 0) < num_key v \<and>
        r = top_ticker now t \<and> volume_24h r = v"
  proof
    fix r assume r: "r \<in> set ?res"
    then have "?res \<noteq> []" by auto
    with get_top_pairs_shape[of c now n limit]
    obtain ex tickers where ex: "exchanges c n = Some ex" "fetch_tickers ex = Inr tickers"
      and res: "?res = map (top_ticker now) (takeWhile ?has
          (py_take limit (sort_desc quote_volume (map snd (filter kept_pair tickers)))))"
      by auto
    from r res obtain t where t: "r = top_ticker now t"
      and "t \<in> set (takeWhile ?has
          (py_take limit (sort_desc quote_volume (map snd (filter kept_pair tickers)))))"
      by auto
    then have "t \<in> set (py_take limit (sort_desc quote_volume (map snd (filter kept_pair tickers))))"
      by (rule_tac set_takeWhileD[THEN conjunct1])
    then have "t \<in> set (map snd (filter kept_pair tickers))"
      using set_py_take set_sort_desc by fastforce
    then obtain k where k: "(k, t) \<in> set tickers" "kept_pair (k, t)"
      by auto
    define v where "v = dict_get t ''quoteVolume'' (PInt 0)"
    from k(2) have gt: "py_gt v (PInt 0) = Inr True" and usdt: "str_contains ''/USDT'' k"
      by (simp_all add: kept_pair_def v_def)
    from gt have cv: "comparable v" and pos: "(0, 0) < num_key v"
      by (simp_all add: py_gt_zero_True)
    from cv have nv: "is_number v" by (cases v) simp_all
    from pos have "v \<noteq> PInt 0" by auto
    then have q: "t ''quoteVolume'' = Some v"
      by (cases "t ''quoteVolume''") (auto simp: v_def dict_get_def)
    have vr: "volume_24h r = v"
      by (simp add: t volume_top_ticker v_def)
    from ex k(1) usdt q nv cv gt pos t vr show
      "\<exists>ex tickers k t v. exchanges c n = Some ex \<and> fetch_tickers ex = Inr tickers \<and>
        (k, t) \<in> set tickers \<and> str_contains ''/USDT'' k \<and>
        t ''quoteVolume'' = Some v \<and> is_number v \<and> comparable v \<and>
        py_gt v (PInt 0) = Inr True \<and> (0, 0) < num_key v \<and>
        r = top_ticker now t \<and> volume_24h r = v"
      by blast
  qed
next
  let ?res = "get_top_pairs c now n limit"
  let ?has = "\<lambda>t::raw_ticker. t ''symbol'' \<noteq> None"
  have "sorted_wrt (\<lambda>a b. quote_volume b \<le> quote_volume a)
          (takeWhile ?has (py_take limit (sort_desc quote_volume xs)))" for xs
    by (intro sorted_wrt_takeWhile sorted_wrt_py_take sorted_desc_sort_desc)
  then have "sorted_wrt (\<lambda>a b. num_key (volume_24h b) \<le> num_key (volume_24h a))
          (map (top_ticker now) (takeWhile ?has (py_take limit (sort_desc quote_volume xs))))" for xs
    by (simp add: sorted_wrt_map quote_volume_top_ticker[of _ now])
  with get_top_pairs_shape[of c now n limit]
  show s: "sorted_wrt (\<lambda>a b. num_key (volume_24h b) \<le> num_key (volume_24h a)) ?res"
    by auto
  have cm: "comparable (volume_24h r)" if "r \<in> set ?res" for r
    using get_top_pairs_positive[OF that] by (simp add: py_gt_zero_True)
  have "py_gt (volume_24h b) (volume_24h a) = Inr False"
    if "a \<in> set ?res" "b \<in> set ?res" "num_key (volume_24h b) \<le> num_key (volume_24h a)" for a b
    using that cm[of a] cm[of b] by (simp add: py_gt_False_iff)
  with s show "sorted_wrt (\<lambda>a b. py_gt (volume_24h b) (volume_24h a) = Inr False) ?res"
    by (rule_tac sorted_wrt_mono_rel[of ?res
          "\<lambda>a b. num_key (volume_24h b) \<le> num_key (volume_24h a)"])
next
  let ?has = "\<lambda>t::raw_ticker. t ''symbol'' \<noteq> None"
  have "length (takeWhile ?has (py_take limit xs)) \<le> nat limit" if "0 \<le> limit" for xs
    using length_takeWhile_le[of ?has "py_take limit xs"] length_py_take[OF that, of xs]
    by simp
  with get_top_pairs_shape[of c now n limit]
  show "0 \<le> limit \<longrightarrow> length (get_top_pairs c now n limit) \<le> nat limit"
    by auto
next
  show "exchanges c n = Some ex' \<longrightarrow> fetch_tickers ex' = Inr tickers' \<longrightarrow>
    usdt_pairs tickers' = Inr ps \<longrightarrow> (\<forall>t \<in> set ps. t ''symbol'' \<noteq> None) \<longrightarrow>
      ps = map snd (filter kept_pair tickers') \<and>
      get_top_pairs c now n limit =
        map (top_ticker now) (py_take limit (sort_desc quote_volume ps))"
  proof (intro impI)
    assume ex: "exchanges c n = Some ex'" "fetch_tickers ex' = Inr tickers'"
      and ps: "usdt_pairs tickers' = Inr ps" and has: "\<forall>t \<in> set ps. t ''symbol'' \<noteq> None"
    have "\<forall>t \<in> set (py_take limit (sort_desc quote_volume ps)). t ''symbol'' \<noteq> None"
      using has set_py_take[of limit "sort_desc quote_volume ps"] set_sort_desc[of quote_volume ps]
      by blast
    then have tw: "takeWhile (\<lambda>t. t ''symbol'' \<noteq> None) (py_take limit (sort_desc quote_volume ps)) =
        py_take limit (sort_desc quote_volume ps)"
      by (simp only: takeWhile_eq_all_conv)
    have "get_top_pairs c now n limit =
        append_results now (py_take limit (sort_desc quote_volume ps))"
      using ex ps by (simp add: get_top_pairs_def)
    also have "\<dots> = map (top_ticker now) (takeWhile (\<lambda>t. t ''symbol'' \<noteq> None)
        (py_take limit (sort_desc quote_volume ps)))"
      by (rule append_results_takeWhile)
    also have "\<dots> = map (top_ticker now) (py_take limit (sort_desc quote_volume ps))"
      by (simp only: tw)
    finally show "ps = map snd (filter kept_pair tickers') \<and>
      get_top_pairs c now n limit =
        map (top_ticker now) (py_take limit (sort_desc quote_volume ps))"
      using usdt_pairs_filter[OF ps] by blast
  qed
qed

theorem top_pairs_filtered_before_ranking_witness:
  "(0::int) \<le> 2 \<and>
   exchanges five_pairs ''A'' = Some five_pairs_exchange \<and>
   fetch_tickers five_pairs_exchange = Inr five_pairs_tickers \<and>
   usdt_pairs five_pairs_tickers =
     Inr [raw ''ETH/USDT'' 3000 500 2, raw ''BTC/USDT'' 50000 500 1,
          raw ''XRP/USDT'' 1 200 (- 4)] \<and>
   list_all (\<lambda>t. t ''symbol'' \<noteq> None)
     [raw ''ETH/USDT'' 3000 500 2, raw ''BTC/USDT'' 50000 500 1, raw ''XRP/USDT'' 1 200 (- 4)] \<and>
   get_top_pairs five_pairs ''t'' ''A'' 2 =
     map (top_ticker ''t'') [raw ''ETH/USDT'' 3000 500 2, raw ''BTC/USDT'' 50000 500 1] \<and>
   length (get_top_pairs five_pairs ''t'' ''A'' 2) \<le> nat 2 \<and>
   sorted_wrt (\<lambda>a b. num_key (volume_24h b) \<le> num_key (volume_24h a))
     (get_top_pairs five_pairs ''t'' ''A'' 2)"
proof -
  let ?ps = "[raw ''ETH/USDT'' 3000 500 2, raw ''BTC/USDT'' 50000 500 1,
          raw ''XRP/USDT'' 1 200 (- 4)]"
  have l0: "(0::int) \<le> 2" by simp
  have ex: "exchanges five_pairs ''A'' = Some five_pairs_exchange"
    by (simp add: five_pairs_def MarketCollector_def)
  have ft: "fetch_tickers five_pairs_exchange = Inr five_pairs_tickers"
    by (simp add: five_pairs_exchange_def)
  have up: "usdt_pairs five_pairs_tickers = Inr ?ps"
    by (simp add: five_pairs_tickers_def raw_def dict_get_def)
  have has: "\<forall>t \<in> set ?ps. t ''symbol'' \<noteq> None"
    by (simp add: raw_def)
  then have has': "list_all (\<lambda>t. t ''symbol'' \<noteq> None) ?ps"
    by (simp only: list_all_iff)
  have srt: "py_take 2 (sort_desc quote_volume ?ps) =
      [raw ''ETH/USDT'' 3000 500 2, raw ''BTC/USDT'' 50000 500 1]"
    by (simp add: py_take_def sort_desc_def quote_volume_def raw_def dict_get_def)
  note T = top_pairs_filtered_before_ranking[of five_pairs "''t''" "''A''" 2
      five_pairs_exchange five_pairs_tickers ?ps]
  from T have s: "sorted_wrt (\<lambda>a b. num_key (volume_24h b) \<le> num_key (volume_24h a))
     (get_top_pairs five_pairs ''t'' ''A'' 2)"
    by (rule conjunct1[OF conjunct2])
  from T l0 have l: "length (get_top_pairs five_pairs ''t'' ''A'' 2) \<le> nat 2"
    by (elim conjE) (erule (1) impE)
  from T ex ft up has have "get_top_pairs five_pairs ''t'' ''A'' 2 =
      map (top_ticker ''t'') (py_take 2 (sort_desc quote_volume ?ps))"
    by (elim conjE) (erule (1) impE, erule (1) impE, erule (1) impE, erule (1) impE,
        erule conjunct2)
  then have e: "get_top_pairs five_pairs ''t'' ''A'' 2 =
      map (top_ticker ''t'') [raw ''ETH/USDT'' 3000 500 2, raw ''BTC/USDT'' 50000 500 1]"
    by (simp only: srt)
  show ?thesis
    by (intro conjI; (fact l0 ex ft up has' e l s))
qed

text \<open>
  C9. An exchange answers for BTC/USDT with the last price \<^verbatim>\<open>None\<close>, the quote volume
  100.0 and the change \<^verbatim>\<open>None\<close>. The fetch of the single ticker succeeds and returns a
  ticker whose price and change are \<^verbatim>\<open>None\<close>, not zero: \<^verbatim>\<open>ticker.get(key, 0)\<close> uses the
  default only for a key that is absent. The fetch of the top pairs builds the same
  ticker, as its volume passes the test \<^verbatim>\<open>> 0\<close>, and the second loop of
  \<^verbatim>\<open>get_market_pulse\<close> then adds \<^verbatim>\<open>None\<close> to 0: the call raises \<^verbatim>\<open>TypeError\<close>.
\<close>

theorem none_value_reaches_arithmetic:
  "fetch_ticker none_price_exchange ''BTC/USDT'' =
     Inr [''symbol'' \<mapsto> PStr ''BTC/USDT'', ''last'' \<mapsto> PNone,
          ''quoteVolume'' \<mapsto> PFloat (Finite 100), ''percentage'' \<mapsto> PNone] \<and>
   get_ticker none_price ''t'' ''A'' ''BTC/USDT'' =
     Some \<lparr>symbol = PStr ''BTC/USDT'', price = PNone, volume_24h = PFloat (Finite 100),
           change_24h = PNone, high_24h = PInt 0, low_24h = PInt 0, timestamp = ''t''\<rparr> \<and>
   get_top_pairs none_price ''t'' ''A'' 50 =
     [\<lparr>symbol = PStr ''BTC/USDT'', price = PNone, volume_24h = PFloat (Finite 100),
       change_24h = PNone, high_24h = PInt 0, low_24h = PInt 0, timestamp = ''t''\<rparr>] \<and>
   get_market_pulse none_price ''t'' 50 = Inl TypeError"
proof -
  have "get_market_pulse none_price ''t'' 50 = Inl TypeError"
    by (rule none_price_pulse)
  then show ?thesis
    by (simp add: none_price_def none_price_exchange_def eval_defs)
qed

text \<open>
  C10. With an explicit symbol list, an initialised exchange whose every
  \<^verbatim>\<open>get_ticker\<close> call returns \<^verbatim>\<open>None\<close> is a key of the mapping, bound to the empty
  list. The keys of the mapping are the exchanges with a task result that is not an
  exception; as no task of \<^verbatim>\<open>collect_all_exchanges\<close> raises, they are the configured
  names that were initialised.
\<close>

theorem silent_exchange_bound_to_empty_list:
  assumes "n \<in> set (exchange_names c)" and "n \<in> dom (exchanges c)"
    and "\<forall>symb \<in> set (s # ss). get_ticker c now n symb = None"
  shows "map_of (collect_all_exchanges c now (Some (s # ss)) limit) n = Some [] \<and>
         (\<forall>m tasks. m \<in> fst ` set (process_results tasks) \<longleftrightarrow>
            (\<exists>r. (m, r) \<in> set tasks \<and> \<not> is_raised r)) \<and>
         (\<forall>symbols. fst ` set (collect_all_exchanges c now symbols limit) =
            set (exchange_names c) \<inter> dom (exchanges c)) \<and>
         dom (exchanges (MarketCollector ccxt names)) = dom ccxt \<inter> set names"
proof -
  have "map_of (collect_all_exchanges c now (Some (s # ss)) limit) n = Some []"
    using assms by (simp add: map_of_collect exchange_tickers_def)
  moreover have "dom (exchanges (MarketCollector ccxt names)) = dom ccxt \<inter> set names"
    by (simp add: MarketCollector_def)
  moreover have "\<forall>m tasks. m \<in> fst ` set (process_results tasks) \<longleftrightarrow>
            (\<exists>r. (m, r) \<in> set tasks \<and> \<not> is_raised r)"
    by (simp only: process_results_keys) simp
  moreover have "\<forall>symbols. fst ` set (collect_all_exchanges c now symbols limit) =
            set (exchange_names c) \<inter> dom (exchanges c)"
    by (simp only: collect_keys) simp
  ultimately show ?thesis
    by (intro conjI)
qed

theorem silent_exchange_bound_to_empty_list_witness:
  "''A'' \<in> set (exchange_names all_failing) \<and> ''A'' \<in> dom (exchanges all_failing) \<and>
   get_ticker all_failing ''t'' ''A'' ''BTC/USDT'' = None \<and>
   get_ticker all_failing ''t'' ''A'' ''ETH/USDT'' = None \<and>
   map_of (collect_all_exchanges all_failing ''t'' (Some [''BTC/USDT'', ''ETH/USDT'']) 50) ''A''
     = Some []"
proof -
  have h: "''A'' \<in> set (exchange_names all_failing)" "''A'' \<in> dom (exchanges all_failing)"
    "\<forall>symb \<in> set [''BTC/USDT'', ''ETH/USDT'']. get_ticker all_failing ''t'' ''A'' symb = None"
    by (simp_all add: all_failing_def MarketCollector_def get_ticker_def failing_exchange_def)
  from silent_exchange_bound_to_empty_list[OF h, of 50] h show ?thesis
    by simp
qed

end
